theory Spec2Isabelle
  imports Main "HOL-Library.Word"
begin

unbundle bit_operations_syntax

section \<open>Data model of \<^verbatim>\<open>signature.go\<close>\<close>

type_synonym byte = "8 word"
type_synonym uint32 = "32 word"

text \<open>
  Modelled from the spec: the type \<^verbatim>\<open>MagicNumber\<close> is declared outside
  \<^verbatim>\<open>signature.go\<close>; the wire format gives it 4 bytes ("algorithmId, 4 bytes, magic
  tag"), so it is a 32-bit unsigned value.
\<close>

type_synonym MagicNumber = "32 word"

text \<open>
  The values of Go's \<^verbatim>\<open>error\<close> that the three functions can return: the two sentinels
  of package \<^verbatim>\<open>io\<close>, any other error of the underlying reader or writer
  (\<open>IOError\<close>, with a tag), and one constructor for each \<^verbatim>\<open>fmt.Errorf\<close> of the file.
\<close>

datatype go_error =
    EOF
  | ErrUnexpectedEOF
  | IOError nat
  | Errorf_Invalid_sigType MagicNumber
  | Errorf_invalid_sigType MagicNumber
  | Errorf_invalid_strongLen uint32 MagicNumber
  | Errorf_got_only nat uint32

text \<open>
  A call either returns a value with a nil error, returns an error, or panics
  (a run-time panic is not a returned error: it unwinds the caller).
\<close>

datatype 'a outcome = Ok 'a | Err go_error | Panic

record SignatureType =
  sigType :: MagicNumber
  blockLen :: uint32
  strongLen :: uint32
  strongSigs :: "byte list list"
  weak2block :: "uint32 \<rightharpoonup> nat"

definition BLAKE2_SUM_LENGTH :: uint32 where
  "BLAKE2_SUM_LENGTH = 32"

definition MD4_SUM_LENGTH :: uint32 where
  "MD4_SUM_LENGTH = 16"

text \<open>
  What \<^verbatim>\<open>signature.go\<close> uses and does not declare is a parameter of the model:
  the two magic constants, the rolling checksum \<^verbatim>\<open>WeakChecksum\<close> (same package,
  another file; the spec calls it "an opaque function mapping a byte block to a 32-bit
  value") and the two digests of \<^verbatim>\<open>golang.org/x/crypto\<close>: \<^verbatim>\<open>blake2b.Sum256\<close>,
  whose result type is \<^verbatim>\<open>[32]byte\<close>, and MD4 (\<^verbatim>\<open>md4.New\<close>, \<^verbatim>\<open>Write\<close>,
  \<^verbatim>\<open>Sum(nil)\<close>), whose result is a slice of 16 bytes.
\<close>

record env =
  BLAKE2_SIG_MAGIC :: MagicNumber
  MD4_SIG_MAGIC :: MagicNumber
  WeakChecksum :: "byte list \<Rightarrow> uint32"
  blake2b_Sum256 :: "byte list \<Rightarrow> byte list"
  md4_Sum :: "byte list \<Rightarrow> byte list"

text \<open>The digests have their native lengths (a fact of their Go types).\<close>

definition native_lengths :: "env \<Rightarrow> bool" where
  "native_lengths e \<longleftrightarrow>
     (\<forall>d. length (blake2b_Sum256 e d) = 32) \<and> (\<forall>d. length (md4_Sum e d) = 16)"

section \<open>Readers and writers\<close>

text \<open>
  \<^verbatim>\<open>io.Reader\<close> and \<^verbatim>\<open>io.Writer\<close> are interfaces: the model takes the method as a
  function on an explicit state. \<open>rd r k\<close> is \<^verbatim>\<open>Read(p)\<close> with \<^verbatim>\<open>len(p) = k\<close>: it
  gives the bytes stored in \<^verbatim>\<open>p[:n]\<close>, the error, and the reader afterwards.
  \<open>wr w bs\<close> is \<^verbatim>\<open>Write(bs)\<close>: the error and the writer afterwards (no caller in
  this file looks at the byte count of a write).
\<close>

type_synonym 'r Reader = "'r \<Rightarrow> nat \<Rightarrow> (byte list \<times> go_error option) \<times> 'r"
type_synonym 'w Writer = "'w \<Rightarrow> byte list \<Rightarrow> go_error option \<times> 'w"

subsection \<open>\<^verbatim>\<open>encoding/binary\<close>, big endian, 32 bits\<close>

definition PutUint32 :: "uint32 \<Rightarrow> byte list" where
  "PutUint32 v = [ucast (drop_bit 24 v), ucast (drop_bit 16 v), ucast (drop_bit 8 v), ucast v]"

definition Uint32 :: "byte list \<Rightarrow> uint32" where
  "Uint32 b =
     (case b of
        b0 # b1 # b2 # b3 # _ \<Rightarrow>
          ucast b3 OR push_bit 8 (ucast b2) OR push_bit 16 (ucast b1) OR push_bit 24 (ucast b0)
      | _ \<Rightarrow> 0)"

text \<open>\<^verbatim>\<open>binary.Write(w, binary.BigEndian, v)\<close>: one \<^verbatim>\<open>Write\<close> of the four bytes.\<close>

definition binary_Write :: "'w Writer \<Rightarrow> 'w \<Rightarrow> uint32 \<Rightarrow> go_error option \<times> 'w" where
  "binary_Write wr w v = wr w (PutUint32 v)"

text \<open>
  \<^verbatim>\<open>io.ReadFull(r, buf)\<close> with \<^verbatim>\<open>len(buf) = k\<close>:
  \<^verbatim>\<open>for n < min && err == nil { nn, err = r.Read(buf[n:]); n += nn }\<close>, then
  \<^verbatim>\<open>if n >= min { err = nil } else if n > 0 && err == EOF { err = ErrUnexpectedEOF }\<close>.
  A reader that keeps returning no byte and no error keeps it looping: the value is
  \<open>None\<close> then.
\<close>

partial_function (option) ReadFull_loop ::
  "'r Reader \<Rightarrow> nat \<Rightarrow> byte list \<Rightarrow> 'r \<Rightarrow> ((byte list \<times> go_error option) \<times> 'r) option"
where
  "ReadFull_loop rd k acc r =
     (if length acc < k then
        (case rd r (k - length acc) of
           ((bs, None), r') \<Rightarrow> ReadFull_loop rd k (acc @ bs) r'
         | ((bs, Some e), r') \<Rightarrow> Some ((acc @ bs, Some e), r'))
      else Some ((acc, None), r))"

definition ReadFull :: "'r Reader \<Rightarrow> nat \<Rightarrow> 'r \<Rightarrow> ((byte list \<times> go_error option) \<times> 'r) option" where
  "ReadFull rd k r =
     (case ReadFull_loop rd k [] r of
        None \<Rightarrow> None
      | Some ((bs, err), r') \<Rightarrow>
          if k \<le> length bs then Some ((bs, None), r')
          else if 0 < length bs \<and> err = Some EOF then Some ((bs, Some ErrUnexpectedEOF), r')
          else Some ((bs, err), r'))"

text \<open>\<^verbatim>\<open>binary.Read(r, binary.BigEndian, &v)\<close> for a 32-bit \<open>v\<close>.\<close>

definition binary_Read :: "'r Reader \<Rightarrow> 'r \<Rightarrow> ((go_error + uint32) \<times> 'r) option" where
  "binary_Read rd r =
     (case ReadFull rd 4 r of
        None \<Rightarrow> None
      | Some ((bs, Some e), r') \<Rightarrow> Some (Inl e, r')
      | Some ((bs, None), r') \<Rightarrow> Some (Inr (Uint32 bs), r'))"

section \<open>The functions of \<^verbatim>\<open>signature.go\<close>\<close>

text \<open>
  \<^verbatim>\<open>CalcStrongSum\<close>. \<^verbatim>\<open>d[:strongLen]\<close> slices an array of 32 bytes, or the 16-byte
  slice that \<^verbatim>\<open>Sum(nil)\<close> built by appending to \<^verbatim>\<open>nil\<close>; beyond that bound the slice
  expression panics ("slice bounds out of range"). The function itself has no check of
  \<open>strongLen\<close>.
\<close>

definition CalcStrongSum :: "env \<Rightarrow> byte list \<Rightarrow> MagicNumber \<Rightarrow> uint32 \<Rightarrow> byte list outcome" where
  "CalcStrongSum e data st sl =
     (if st = BLAKE2_SIG_MAGIC e then
        (if 32 < unat sl then Panic else Ok (take (unat sl) (blake2b_Sum256 e data)))
      else if st = MD4_SIG_MAGIC e then
        (if 16 < unat sl then Panic else Ok (take (unat sl) (md4_Sum e data)))
      else Err (Errorf_Invalid_sigType st))"

text \<open>
  The loop of \<^verbatim>\<open>Signature\<close> (lines 76 to 96). One \<^verbatim>\<open>Read\<close> into the block buffer;
  \<^verbatim>\<open>io.EOF\<close> leaves the loop whatever \<open>n\<close> is, another error is returned;
  \<^verbatim>\<open>block[:n]\<close> panics if the reader claims more bytes than the buffer holds. The weak
  checksum is written with its error checked. The error of \<^verbatim>\<open>CalcStrongSum\<close> is
  dropped (\<^verbatim>\<open>strong, _ :=\<close>, a nil slice on error) and so is the result of
  \<^verbatim>\<open>output.Write(strong)\<close>.
\<close>

partial_function (option) Signature_loop ::
  "env \<Rightarrow> 'r Reader \<Rightarrow> 'w Writer \<Rightarrow> uint32 \<Rightarrow> uint32 \<Rightarrow> MagicNumber \<Rightarrow>
   'r \<Rightarrow> 'w \<Rightarrow> SignatureType \<Rightarrow> (SignatureType outcome \<times> 'r \<times> 'w) option"
where
  "Signature_loop e rd wr bl sl st input output ret =
     (case rd input (unat bl) of
        ((data, Some err), input') \<Rightarrow>
          if err = EOF then Some (Ok ret, input', output) else Some (Err err, input', output)
      | ((data, None), input') \<Rightarrow>
          if unat bl < length data then Some (Panic, input', output)
          else
            (case binary_Write wr output (WeakChecksum e data) of
               (Some err, output') \<Rightarrow> Some (Err err, input', output')
             | (None, output') \<Rightarrow>
                 (case CalcStrongSum e data st sl of
                    Panic \<Rightarrow> Some (Panic, input', output')
                  | res \<Rightarrow>
                      (let strong = (case res of Ok s \<Rightarrow> s | _ \<Rightarrow> []);
                           output'' = snd (wr output' strong)
                       in Signature_loop e rd wr bl sl st input' output''
                            (ret\<lparr>weak2block := (weak2block ret)(WeakChecksum e data \<mapsto> length (strongSigs ret)),
                                 strongSigs := strongSigs ret @ [strong]\<rparr>)))))"

text \<open>
  \<^verbatim>\<open>Signature\<close>: the two checks (lines 42 to 53), the three header fields (lines 55 to
  66), then the loop on a signature with an empty map and no strong checksum. The result
  carries the reader and the writer as the call leaves them.
\<close>

definition Signature ::
  "env \<Rightarrow> 'r Reader \<Rightarrow> 'w Writer \<Rightarrow> 'r \<Rightarrow> 'w \<Rightarrow> uint32 \<Rightarrow> uint32 \<Rightarrow> MagicNumber \<Rightarrow>
   (SignatureType outcome \<times> 'r \<times> 'w) option"
where
  "Signature e rd wr input output bl sl st =
     (if st \<noteq> BLAKE2_SIG_MAGIC e \<and> st \<noteq> MD4_SIG_MAGIC e then
        Some (Err (Errorf_invalid_sigType st), input, output)
      else
        (let maxStrongLen = (if st = BLAKE2_SIG_MAGIC e then BLAKE2_SUM_LENGTH else MD4_SUM_LENGTH)
         in if maxStrongLen < sl then Some (Err (Errorf_invalid_strongLen sl st), input, output)
            else
              (case binary_Write wr output st of
                 (Some err, w1) \<Rightarrow> Some (Err err, input, w1)
               | (None, w1) \<Rightarrow>
                   (case binary_Write wr w1 bl of
                      (Some err, w2) \<Rightarrow> Some (Err err, input, w2)
                    | (None, w2) \<Rightarrow>
                        (case binary_Write wr w2 sl of
                           (Some err, w3) \<Rightarrow> Some (Err err, input, w3)
                         | (None, w3) \<Rightarrow>
                             Signature_loop e rd wr bl sl st input w3
                               \<lparr>sigType = st, blockLen = bl, strongLen = sl,
                                strongSigs = [], weak2block = Map.empty\<rparr>)))))"

text \<open>
  The loop of \<^verbatim>\<open>ReadSignature\<close> (lines 124 to 144): the weak checksum through
  \<^verbatim>\<open>binary.Read\<close>, where \<^verbatim>\<open>io.EOF\<close> ends the loop; then ONE \<^verbatim>\<open>Read\<close> into a
  buffer of \<open>strongLen\<close> bytes, where every error (also \<^verbatim>\<open>io.EOF\<close>) is returned and
  a count other than \<open>strongLen\<close> is an error.
\<close>

partial_function (option) ReadSignature_loop ::
  "'r Reader \<Rightarrow> uint32 \<Rightarrow> 'r \<Rightarrow> byte list list \<Rightarrow> (uint32 \<rightharpoonup> nat) \<Rightarrow>
   ((byte list list \<times> (uint32 \<rightharpoonup> nat)) outcome \<times> 'r) option"
where
  "ReadSignature_loop rd sl r sigs w2b =
     (case binary_Read rd r of
        None \<Rightarrow> None
      | Some (Inl err, r1) \<Rightarrow>
          if err = EOF then Some (Ok (sigs, w2b), r1) else Some (Err err, r1)
      | Some (Inr weakSum, r1) \<Rightarrow>
          (case rd r1 (unat sl) of
             ((strongSum, Some err), r2) \<Rightarrow> Some (Err err, r2)
           | ((strongSum, None), r2) \<Rightarrow>
               if length strongSum \<noteq> unat sl
               then Some (Err (Errorf_got_only (length strongSum) sl), r2)
               else ReadSignature_loop rd sl r2 (sigs @ [strongSum])
                      (w2b(weakSum \<mapsto> length sigs))))"

definition ReadSignature :: "'r Reader \<Rightarrow> 'r \<Rightarrow> (SignatureType outcome \<times> 'r) option" where
  "ReadSignature rd r =
     (case binary_Read rd r of
        None \<Rightarrow> None
      | Some (Inl err, r1) \<Rightarrow> Some (Err err, r1)
      | Some (Inr magic, r1) \<Rightarrow>
          (case binary_Read rd r1 of
             None \<Rightarrow> None
           | Some (Inl err, r2) \<Rightarrow> Some (Err err, r2)
           | Some (Inr bl, r2) \<Rightarrow>
               (case binary_Read rd r2 of
                  None \<Rightarrow> None
                | Some (Inl err, r3) \<Rightarrow> Some (Err err, r3)
                | Some (Inr sl, r3) \<Rightarrow>
                    (case ReadSignature_loop rd sl r3 [] Map.empty of
                       None \<Rightarrow> None
                     | Some (Ok (sigs, w2b), r4) \<Rightarrow>
                         Some (Ok \<lparr>sigType = magic, blockLen = bl, strongLen = sl,
                                   strongSigs = sigs, weak2block = w2b\<rparr>, r4)
                     | Some (Err err, r4) \<Rightarrow> Some (Err err, r4)
                     | Some (Panic, r4) \<Rightarrow> Some (Panic, r4)))))"

section \<open>Streams in memory\<close>

text \<open>
  A byte sequence behind a reader that copies as many bytes as the buffer takes. The
  readers of the Go library differ in one place, a \<^verbatim>\<open>Read\<close> into an empty buffer at
  the end of the data: \<^verbatim>\<open>bytes.Reader\<close> (and \<^verbatim>\<open>strings.Reader\<close>) test
  \<^verbatim>\<open>r.i >= len(r.s)\<close> first and return \<^verbatim>\<open>0, io.EOF\<close>; \<^verbatim>\<open>bytes.Buffer\<close> returns
  \<^verbatim>\<open>0, nil\<close> when \<^verbatim>\<open>len(p) == 0\<close>, and so does \<^verbatim>\<open>os.File\<close>, the reader of
  \<^verbatim>\<open>ReadSignatureFile\<close>. The flag \<open>z\<close> says that this read reports \<^verbatim>\<open>io.EOF\<close>.
\<close>

definition stream_Read :: "bool \<Rightarrow> byte list Reader" where
  "stream_Read z s k =
     (if s = [] then (if k = 0 \<and> \<not> z then (([], None), s) else (([], Some EOF), s))
      else ((take k s, None), drop k s))"

definition bytes_Reader_Read :: "byte list Reader" where
  "bytes_Reader_Read = stream_Read True"

definition bytes_Buffer_Read :: "byte list Reader" where
  "bytes_Buffer_Read = stream_Read False"

text \<open>\<^verbatim>\<open>bytes.Buffer.Write\<close> appends and never fails.\<close>

definition bytes_Buffer_Write :: "byte list Writer" where
  "bytes_Buffer_Write w bs = (None, w @ bs)"

text \<open>
  A sink with room for a fixed number of bytes (a full device): a write that does not
  fit stores what fits and returns an error.
\<close>

definition limited_Write :: "(byte list \<times> nat) Writer" where
  "limited_Write w bs =
     (case w of (out, room) \<Rightarrow>
        if length bs \<le> room then (None, (out @ bs, room - length bs))
        else (Some (IOError 0), (out @ take room bs, 0)))"

section \<open>Blocks, records and the index, as the spec words them\<close>

text \<open>The partition of the input into blocks of \<open>n\<close> bytes, the last one possibly short.\<close>

function chunks :: "nat \<Rightarrow> 'a list \<Rightarrow> 'a list list" where
  "chunks n xs = (if n = 0 \<or> xs = [] then [] else take n xs # chunks n (drop n xs))"
  by pat_completeness auto
termination
  by (relation "measure (\<lambda>(n, xs). length xs)") auto

declare chunks.simps [simp del]

text \<open>The full-length digest of a block under an algorithm tag, and its first \<open>sl\<close> bytes.\<close>

definition full_digest :: "env \<Rightarrow> MagicNumber \<Rightarrow> byte list \<Rightarrow> byte list" where
  "full_digest e st data = (if st = BLAKE2_SIG_MAGIC e then blake2b_Sum256 e data else md4_Sum e data)"

definition strong_of :: "env \<Rightarrow> MagicNumber \<Rightarrow> uint32 \<Rightarrow> byte list \<Rightarrow> byte list" where
  "strong_of e st sl data = take (unat sl) (full_digest e st data)"

text \<open>The wire format: the header of three fields, and one record per block.\<close>

definition header_bytes :: "MagicNumber \<Rightarrow> uint32 \<Rightarrow> uint32 \<Rightarrow> byte list" where
  "header_bytes st bl sl = PutUint32 st @ PutUint32 bl @ PutUint32 sl"

definition record_bytes :: "uint32 \<times> byte list \<Rightarrow> byte list" where
  "record_bytes rc = PutUint32 (fst rc) @ snd rc"

definition block_record :: "env \<Rightarrow> MagicNumber \<Rightarrow> uint32 \<Rightarrow> byte list \<Rightarrow> uint32 \<times> byte list" where
  "block_record e st sl data = (WeakChecksum e data, strong_of e st sl data)"

text \<open>
  The map after the weak checksums \<open>ws\<close> were stored in order, the first one under the
  index \<open>n\<close>: each store overwrites.
\<close>

fun index_from :: "(uint32 \<rightharpoonup> nat) \<Rightarrow> nat \<Rightarrow> uint32 list \<Rightarrow> (uint32 \<rightharpoonup> nat)" where
  "index_from m n [] = m"
| "index_from m n (w # ws) = index_from (m(w \<mapsto> n)) (Suc n) ws"

text \<open>The signature that the spec describes for a list of blocks.\<close>

definition signature_of ::
  "env \<Rightarrow> uint32 \<Rightarrow> uint32 \<Rightarrow> MagicNumber \<Rightarrow> byte list list \<Rightarrow> SignatureType" where
  "signature_of e bl sl st blocks =
     \<lparr>sigType = st, blockLen = bl, strongLen = sl,
      strongSigs = map (strong_of e st sl) blocks,
      weak2block = index_from Map.empty 0 (map (WeakChecksum e) blocks)\<rparr>"

text \<open>
  The tags that the two \<^verbatim>\<open>switch\<close> statements know, the native digest length of a tag
  (the first \<^verbatim>\<open>case\<close> wins), and the configurations that the two checks of
  \<^verbatim>\<open>Signature\<close> accept.
\<close>

definition recognized :: "env \<Rightarrow> MagicNumber \<Rightarrow> bool" where
  "recognized e st \<longleftrightarrow> st = BLAKE2_SIG_MAGIC e \<or> st = MD4_SIG_MAGIC e"

definition native_length :: "env \<Rightarrow> MagicNumber \<Rightarrow> nat" where
  "native_length e st = (if st = BLAKE2_SIG_MAGIC e then 32 else 16)"

definition accepted :: "env \<Rightarrow> uint32 \<Rightarrow> MagicNumber \<Rightarrow> bool" where
  "accepted e sl st \<longleftrightarrow> recognized e st \<and> unat sl \<le> native_length e st"

text \<open>
  A list of records whose strong checksums all have \<open>sl\<close> bytes, and the bytes of a
  signature stream.
\<close>

definition wf_records :: "uint32 \<Rightarrow> (uint32 \<times> byte list) list \<Rightarrow> bool" where
  "wf_records sl rs \<longleftrightarrow> list_all (\<lambda>rc. length (snd rc) = unat sl) rs"

definition records_bytes :: "(uint32 \<times> byte list) list \<Rightarrow> byte list" where
  "records_bytes rs = concat (map record_bytes rs)"

definition decoded ::
  "MagicNumber \<Rightarrow> uint32 \<Rightarrow> uint32 \<Rightarrow> (uint32 \<times> byte list) list \<Rightarrow> SignatureType" where
  "decoded magic bl sl rs =
     \<lparr>sigType = magic, blockLen = bl, strongLen = sl,
      strongSigs = map snd rs, weak2block = index_from Map.empty 0 (map fst rs)\<rparr>"

text \<open>The errors of the configuration checks (the \<^verbatim>\<open>fmt.Errorf\<close> of the build path).\<close>

fun is_configuration_error :: "go_error \<Rightarrow> bool" where
  "is_configuration_error (Errorf_Invalid_sigType m) = True"
| "is_configuration_error (Errorf_invalid_sigType m) = True"
| "is_configuration_error (Errorf_invalid_strongLen n m) = True"
| "is_configuration_error err = False"

text \<open>
  What a decoding may return: a signature, or an error that is not one of the
  configuration errors; never a panic.
\<close>

definition decode_result_ok :: "'a outcome \<Rightarrow> bool" where
  "decode_result_ok res \<longleftrightarrow>
     (case res of Ok v \<Rightarrow> True | Err err \<Rightarrow> \<not> is_configuration_error err | Panic \<Rightarrow> False)"

text \<open>
  An environment to evaluate the model on: the two magic numbers of the librsync format,
  and stand-ins for the three checksum functions (sum of the bytes, and constant digests
  of the native lengths).
\<close>

definition env0 :: env where
  "env0 = \<lparr>BLAKE2_SIG_MAGIC = 0x72730137, MD4_SIG_MAGIC = 0x72730136,
           WeakChecksum = (\<lambda>d. sum_list (map ucast d)),
           blake2b_Sum256 = (\<lambda>d. replicate 32 0xB2),
           md4_Sum = (\<lambda>d. replicate 16 0xD4)\<rparr>"

section \<open>Lemmas about the byte order, the readers in memory and the two loops\<close>

lemma Uint32_PutUint32: "Uint32 (PutUint32 v @ rest) = v"
proof -
  have "ucast (ucast v :: byte) OR push_bit 8 (ucast (ucast (drop_bit 8 v) :: byte)) OR
        push_bit 16 (ucast (ucast (drop_bit 16 v) :: byte)) OR
        push_bit 24 (ucast (ucast (drop_bit 24 v) :: byte)) = v"
  proof (rule bit_word_eqI)
    fix n :: nat
    assume n: "n < LENGTH(32)"
    consider "n < 8" | "8 \<le> n" "n < 16" | "16 \<le> n" "n < 24" | "24 \<le> n"
      by linarith
    then show "bit (ucast (ucast v :: byte) OR push_bit 8 (ucast (ucast (drop_bit 8 v) :: byte)) OR
        push_bit 16 (ucast (ucast (drop_bit 16 v) :: byte)) OR
        push_bit 24 (ucast (ucast (drop_bit 24 v) :: byte)) :: 32 word) n = bit v n"
      using n by cases (auto simp add: bit_simps)
  qed
  then show ?thesis
    by (simp add: Uint32_def PutUint32_def)
qed

lemma length_PutUint32: "length (PutUint32 v) = 4"
  by (simp add: PutUint32_def)

lemma ReadFull_loop_done: "k \<le> length acc \<Longrightarrow> ReadFull_loop rd k acc r = Some ((acc, None), r)"
  by (subst ReadFull_loop.simps) simp

lemma ReadFull_stream_empty:
  "0 < k \<Longrightarrow> ReadFull (stream_Read z) k [] = Some (([], Some EOF), [])"
  unfolding ReadFull_def
  by (subst ReadFull_loop.simps) (simp add: stream_Read_def)

lemma ReadFull_stream_short:
  assumes "s \<noteq> []" "length s < k"
  shows "ReadFull (stream_Read z) k s = Some ((s, Some ErrUnexpectedEOF), [])"
proof -
  have "ReadFull_loop (stream_Read z) k [] s = ReadFull_loop (stream_Read z) k s []"
    using assms by (subst ReadFull_loop.simps) (simp add: stream_Read_def)
  also have "\<dots> = Some ((s, Some EOF), [])"
    using assms by (subst ReadFull_loop.simps) (simp add: stream_Read_def)
  finally show ?thesis
    using assms by (simp add: ReadFull_def)
qed

lemma ReadFull_stream_full:
  assumes "0 < k" "k \<le> length s"
  shows "ReadFull (stream_Read z) k s = Some ((take k s, None), drop k s)"
proof -
  have "s \<noteq> []" using assms by auto
  then have "ReadFull_loop (stream_Read z) k [] s = ReadFull_loop (stream_Read z) k (take k s) (drop k s)"
    using assms by (subst ReadFull_loop.simps) (simp add: stream_Read_def)
  also have "\<dots> = Some ((take k s, None), drop k s)"
    using assms by (simp add: ReadFull_loop_done)
  finally show ?thesis
    using assms by (simp add: ReadFull_def)
qed

lemma binary_Read_stream_empty: "binary_Read (stream_Read z) [] = Some (Inl EOF, [])"
  by (simp add: binary_Read_def ReadFull_stream_empty)

lemma binary_Read_stream_short:
  "s \<noteq> [] \<Longrightarrow> length s < 4 \<Longrightarrow> binary_Read (stream_Read z) s = Some (Inl ErrUnexpectedEOF, [])"
  by (simp add: binary_Read_def ReadFull_stream_short)

lemma binary_Read_stream_full:
  "4 \<le> length s \<Longrightarrow> binary_Read (stream_Read z) s = Some (Inr (Uint32 (take 4 s)), drop 4 s)"
  by (simp add: binary_Read_def ReadFull_stream_full)

lemma binary_Read_stream_PutUint32:
  "binary_Read (stream_Read z) (PutUint32 v @ rest) = Some (Inr v, rest)"
proof -
  have "take 4 (PutUint32 v @ rest) = PutUint32 v" "drop 4 (PutUint32 v @ rest) = rest"
    by (simp_all add: length_PutUint32)
  moreover have "Uint32 (PutUint32 v) = v"
    using Uint32_PutUint32 [of v "[]"] by simp
  ultimately show ?thesis
    by (simp add: binary_Read_stream_full length_PutUint32)
qed

lemma CalcStrongSum_accepted:
  "accepted e sl st \<Longrightarrow> CalcStrongSum e data st sl = Ok (strong_of e st sl data)"
  by (auto simp add: accepted_def recognized_def native_length_def CalcStrongSum_def
      strong_of_def full_digest_def split: if_splits)

lemma Signature_loop_stream:
  assumes "0 < unat bl" "accepted e sl st"
  shows "Signature_loop e (stream_Read z) bytes_Buffer_Write bl sl st xs out ret =
         Some (Ok (ret\<lparr>weak2block := index_from (weak2block ret) (length (strongSigs ret))
                              (map (WeakChecksum e) (chunks (unat bl) xs)),
                      strongSigs := strongSigs ret @ map (strong_of e st sl) (chunks (unat bl) xs)\<rparr>),
               [], out @ records_bytes (map (block_record e st sl) (chunks (unat bl) xs)))"
  using assms
proof (induction "unat bl" xs arbitrary: out ret rule: chunks.induct)
  case (1 xs)
  show ?case
  proof (cases "xs = []")
    case True
    moreover have "unat bl \<noteq> 0" using "1.prems" by simp
    ultimately show ?thesis
      by (subst Signature_loop.simps) (simp add: stream_Read_def chunks.simps records_bytes_def)
  next
    case False
    have ch: "chunks (unat bl) xs = take (unat bl) xs # chunks (unat bl) (drop (unat bl) xs)"
      using False "1.prems" by (subst chunks.simps) simp
    have nz: "unat bl \<noteq> 0" using "1.prems" by simp
    have IH: "\<And>out ret. Signature_loop e (stream_Read z) bytes_Buffer_Write bl sl st (drop (unat bl) xs) out ret =
         Some (Ok (ret\<lparr>weak2block := index_from (weak2block ret) (length (strongSigs ret))
                              (map (WeakChecksum e) (chunks (unat bl) (drop (unat bl) xs))),
                      strongSigs := strongSigs ret @ map (strong_of e st sl) (chunks (unat bl) (drop (unat bl) xs))\<rparr>),
               [], out @ records_bytes (map (block_record e st sl) (chunks (unat bl) (drop (unat bl) xs))))"
      using "1.hyps" "1.prems" False nz by simp
    show ?thesis
      apply (subst Signature_loop.simps)
      using False nz "1.prems"(2)
      apply (simp add: stream_Read_def binary_Write_def bytes_Buffer_Write_def
          CalcStrongSum_accepted IH ch record_bytes_def records_bytes_def block_record_def Let_def)
      done
  qed
qed

lemma Signature_stream:
  assumes "0 < unat bl" "accepted e sl st"
  shows "Signature e (stream_Read z) bytes_Buffer_Write xs out bl sl st =
         Some (Ok (signature_of e bl sl st (chunks (unat bl) xs)), [],
               out @ header_bytes st bl sl @
               records_bytes (map (block_record e st sl) (chunks (unat bl) xs)))"
proof -
  have a: "\<not> (st \<noteq> BLAKE2_SIG_MAGIC e \<and> st \<noteq> MD4_SIG_MAGIC e)"
    using assms(2) by (auto simp add: accepted_def recognized_def)
  have b: "\<not> (if st = BLAKE2_SIG_MAGIC e then BLAKE2_SUM_LENGTH else MD4_SUM_LENGTH) < sl"
    using assms(2)
    by (auto simp add: accepted_def native_length_def BLAKE2_SUM_LENGTH_def MD4_SUM_LENGTH_def
        word_less_nat_alt)
  show ?thesis
    unfolding Signature_def
    using a b
    by (simp add: Let_def binary_Write_def bytes_Buffer_Write_def Signature_loop_stream [OF assms]
        signature_of_def header_bytes_def)
qed

lemma records_bytes_Cons: "records_bytes ((w, s) # rs) = PutUint32 w @ s @ records_bytes rs"
  by (simp add: records_bytes_def record_bytes_def)

lemma records_bytes_Nil: "records_bytes [] = []"
  by (simp add: records_bytes_def)

lemma records_bytes_empty_iff: "records_bytes rs = [] \<longleftrightarrow> rs = []"
  by (cases rs) (auto simp add: records_bytes_def record_bytes_def PutUint32_def)

lemma ReadSignature_loop_records:
  assumes "wf_records sl rs" "rs = [] \<or> \<not> z \<or> sl \<noteq> 0 \<or> rest \<noteq> []"
  shows "ReadSignature_loop (stream_Read z) sl (records_bytes rs @ rest) sigs w2b =
         ReadSignature_loop (stream_Read z) sl rest (sigs @ map snd rs)
           (index_from w2b (length sigs) (map fst rs))"
  using assms
proof (induction rs arbitrary: sigs w2b)
  case Nil
  then show ?case by (simp add: records_bytes_Nil)
next
  case (Cons rc rs)
  obtain w s where rc: "rc = (w, s)" by (cases rc)
  have len: "length s = unat sl" and wf: "wf_records sl rs"
    using Cons.prems(1) by (simp_all add: wf_records_def rc)
  have side: "rs = [] \<or> \<not> z \<or> sl \<noteq> 0 \<or> rest \<noteq> []"
    using Cons.prems(2) by simp
  let ?tl = "records_bytes rs @ rest"
  have rd: "stream_Read z (s @ ?tl) (unat sl) = ((s, None), ?tl)"
  proof (cases "s @ ?tl = []")
    case True
    then have "s = []" "rest = []" by simp_all
    then have "sl = 0" using len by (simp add: unat_eq_0)
    then have "\<not> z" using Cons.prems(2) \<open>rest = []\<close> by simp
    then show ?thesis using True \<open>sl = 0\<close> by (simp add: stream_Read_def)
  next
    case False
    then show ?thesis using len by (simp add: stream_Read_def)
  qed
  have "ReadSignature_loop (stream_Read z) sl (records_bytes (rc # rs) @ rest) sigs w2b =
        ReadSignature_loop (stream_Read z) sl ?tl (sigs @ [s]) (w2b(w \<mapsto> length sigs))"
    apply (subst ReadSignature_loop.simps)
    apply (simp add: rc records_bytes_Cons binary_Read_stream_PutUint32 rd len)
    done
  also have "\<dots> = ReadSignature_loop (stream_Read z) sl rest ((sigs @ [s]) @ map snd rs)
           (index_from (w2b(w \<mapsto> length sigs)) (length (sigs @ [s])) (map fst rs))"
    by (rule Cons.IH [OF wf side])
  finally show ?case by (simp add: rc)
qed

lemma ReadSignature_loop_end:
  "ReadSignature_loop (stream_Read z) sl [] sigs w2b = Some (Ok (sigs, w2b), [])"
  by (subst ReadSignature_loop.simps) (simp add: binary_Read_stream_empty)

lemma ReadSignature_loop_short_weak:
  "t \<noteq> [] \<Longrightarrow> length t < 4 \<Longrightarrow>
   ReadSignature_loop (stream_Read z) sl t sigs w2b = Some (Err ErrUnexpectedEOF, [])"
  by (subst ReadSignature_loop.simps) (simp add: binary_Read_stream_short)

lemma ReadSignature_loop_short_strong:
  assumes "length t < unat sl"
  shows "ReadSignature_loop (stream_Read z) sl (PutUint32 w @ t) sigs w2b =
         Some (Err (if t = [] then EOF else Errorf_got_only (length t) sl), [])"
  using assms
  by (subst ReadSignature_loop.simps) (auto simp add: binary_Read_stream_PutUint32 stream_Read_def)

lemma ReadSignature_header:
  "ReadSignature (stream_Read z) (header_bytes magic bl sl @ body) =
     (case ReadSignature_loop (stream_Read z) sl body [] Map.empty of
        None \<Rightarrow> None
      | Some (Ok (sigs, w2b), r4) \<Rightarrow>
          Some (Ok \<lparr>sigType = magic, blockLen = bl, strongLen = sl,
                    strongSigs = sigs, weak2block = w2b\<rparr>, r4)
      | Some (Err err, r4) \<Rightarrow> Some (Err err, r4)
      | Some (Panic, r4) \<Rightarrow> Some (Panic, r4))"
  by (simp add: ReadSignature_def header_bytes_def binary_Read_stream_PutUint32)

lemma ReadSignature_loop_last_empty_strong:
  "ReadSignature_loop (stream_Read True) 0 (PutUint32 w) sigs w2b = Some (Err EOF, [])"
proof -
  have "binary_Read (stream_Read True) (PutUint32 w) = Some (Inr w, [])"
    using binary_Read_stream_PutUint32 [of True w "[]"] by simp
  then show ?thesis
    by (subst ReadSignature_loop.simps) (simp add: stream_Read_def)
qed

lemma records_bytes_snoc: "records_bytes (rs @ [(w, s)]) = records_bytes rs @ PutUint32 w @ s"
  by (simp add: records_bytes_def record_bytes_def)

lemma ReadSignature_empty_strong_EOF:
  assumes "wf_records 0 rs" "rs \<noteq> []"
  shows "ReadSignature (stream_Read True) (header_bytes magic bl 0 @ records_bytes rs) =
         Some (Err EOF, [])"
proof -
  obtain rs' w s where rs: "rs = rs' @ [(w, s)]"
    using assms(2) by (metis rev_exhaust surj_pair)
  have wf: "wf_records 0 rs'" and s: "s = []"
    using assms(1) by (simp_all add: wf_records_def rs)
  have "ReadSignature_loop (stream_Read True) 0 (records_bytes rs' @ PutUint32 w) [] Map.empty =
        Some (Err EOF, [])"
  proof -
    have "PutUint32 w \<noteq> []" by (simp add: PutUint32_def)
    then show ?thesis
      using wf
      by (subst ReadSignature_loop_records) (simp_all add: ReadSignature_loop_last_empty_strong)
  qed
  then show ?thesis
    by (simp add: ReadSignature_header rs s records_bytes_snoc)
qed

lemma ReadSignature_records:
  assumes "wf_records sl rs" "rs = [] \<or> \<not> z \<or> sl \<noteq> 0"
  shows "ReadSignature (stream_Read z) (header_bytes magic bl sl @ records_bytes rs) =
         Some (Ok (decoded magic bl sl rs), [])"
proof -
  have "ReadSignature_loop (stream_Read z) sl (records_bytes rs @ []) [] Map.empty =
        Some (Ok (map snd rs, index_from Map.empty 0 (map fst rs)), [])"
    using assms by (subst ReadSignature_loop_records) (auto simp add: ReadSignature_loop_end)
  then show ?thesis
    by (simp add: ReadSignature_header decoded_def)
qed

lemma ReadSignature_truncated:
  assumes "wf_records sl rs" "length t < unat sl"
  shows "ReadSignature (stream_Read z) (header_bytes magic bl sl @ records_bytes rs @ PutUint32 w @ t) =
         Some (Err (if t = [] then EOF else Errorf_got_only (length t) sl), [])"
proof -
  have "sl \<noteq> 0" using assms(2) by auto
  then have "ReadSignature_loop (stream_Read z) sl (records_bytes rs @ PutUint32 w @ t) [] Map.empty =
        Some (Err (if t = [] then EOF else Errorf_got_only (length t) sl), [])"
    using assms by (subst ReadSignature_loop_records) (auto simp add: ReadSignature_loop_short_strong)
  then show ?thesis
    by (simp add: ReadSignature_header)
qed

subsection \<open>The partition into blocks\<close>

lemma chunks_Nil: "chunks n [] = []"
  by (simp add: chunks.simps)

lemma chunks_step:
  "0 < n \<Longrightarrow> xs \<noteq> [] \<Longrightarrow> chunks n xs = take n xs # chunks n (drop n xs)"
  by (subst chunks.simps) simp

lemma concat_chunks: "0 < n \<Longrightarrow> concat (chunks n xs) = xs"
proof (induction n xs rule: chunks.induct)
  case (1 n xs)
  then show ?case
    by (cases "xs = []") (simp_all add: chunks_Nil chunks_step)
qed

lemma length_chunks: "0 < n \<Longrightarrow> length (chunks n xs) = (length xs + n - 1) div n"
proof (induction n xs rule: chunks.induct)
  case (1 n xs)
  show ?case
  proof (cases "xs = []")
    case True
    then show ?thesis using "1.prems" by (simp add: chunks_Nil)
  next
    case False
    have IH: "length (chunks n (drop n xs)) = (length xs - n + n - 1) div n"
      using "1.IH" "1.prems" False by simp
    have n0: "n \<noteq> 0" using "1.prems" by simp
    show ?thesis
    proof (cases "n \<le> length xs")
      case True
      have "length xs + n - 1 = (length xs - n + n - 1) + n"
        using True "1.prems" by arith
      then have "(length xs + n - 1) div n = ((length xs - n + n - 1) + n) div n"
        by (rule arg_cong)
      also have "\<dots> = (length xs - n + n - 1) div n + 1"
        by (rule div_add_self2 [OF n0])
      finally show ?thesis using False "1.prems" IH by (simp add: chunks_step)
    next
      case False
      have lt: "length xs - 1 < n" using False by arith
      have "length xs + n - 1 = (length xs - 1) + n"
        using \<open>xs \<noteq> []\<close> by (cases xs) simp_all
      then have "(length xs + n - 1) div n = ((length xs - 1) + n) div n"
        by (rule arg_cong)
      also have "\<dots> = (length xs - 1) div n + 1"
        by (rule div_add_self2 [OF n0])
      also have "\<dots> = 1"
        using lt by simp
      finally have "(length xs + n - 1) div n = 1" .
      moreover have "drop n xs = []" using False by simp
      ultimately show ?thesis using \<open>xs \<noteq> []\<close> "1.prems" by (simp add: chunks_step chunks_Nil)
    qed
  qed
qed

lemma chunks_nth:
  "0 < n \<Longrightarrow> i < length (chunks n xs) \<Longrightarrow> chunks n xs ! i = take n (drop (i * n) xs)"
proof (induction n xs arbitrary: i rule: chunks.induct)
  case (1 n xs)
  show ?case
  proof (cases "xs = []")
    case True
    then show ?thesis using "1.prems" by (simp add: chunks_Nil)
  next
    case False
    show ?thesis
    proof (cases i)
      case 0
      then show ?thesis using False "1.prems" by (simp add: chunks_step)
    next
      case (Suc j)
      then have "j < length (chunks n (drop n xs))"
        using "1.prems" False by (simp add: chunks_step)
      then have "chunks n (drop n xs) ! j = take n (drop (j * n) (drop n xs))"
        using "1.IH" "1.prems" False by simp
      then show ?thesis using Suc False "1.prems" by (simp add: chunks_step add.commute)
    qed
  qed
qed

lemma chunks_nonempty: "0 < n \<Longrightarrow> b \<in> set (chunks n xs) \<Longrightarrow> b \<noteq> [] \<and> length b \<le> n"
proof (induction n xs rule: chunks.induct)
  case (1 n xs)
  show ?case
  proof (cases "xs = []")
    case True
    then show ?thesis using "1.prems" by (simp add: chunks_Nil)
  next
    case False
    then show ?thesis using "1.IH" "1.prems" by (auto simp add: chunks_step)
  qed
qed

lemma chunks_full:
  "0 < n \<Longrightarrow> Suc i < length (chunks n xs) \<Longrightarrow> length (chunks n xs ! i) = n"
proof (induction n xs arbitrary: i rule: chunks.induct)
  case (1 n xs)
  show ?case
  proof (cases "xs = []")
    case True
    then show ?thesis using "1.prems" by (simp add: chunks_Nil)
  next
    case False
    have ch: "chunks n xs = take n xs # chunks n (drop n xs)"
      using False "1.prems" by (simp add: chunks_step)
    show ?thesis
    proof (cases i)
      case 0
      have "chunks n (drop n xs) \<noteq> []" using "1.prems" ch 0 by auto
      then have "drop n xs \<noteq> []" by (auto simp add: chunks_Nil)
      then show ?thesis using 0 ch by simp
    next
      case (Suc j)
      then have "Suc j < length (chunks n (drop n xs))"
        using "1.prems" ch by simp
      then have "length (chunks n (drop n xs) ! j) = n"
        using "1.IH" "1.prems" False by simp
      then show ?thesis using Suc ch by simp
    qed
  qed
qed

lemma last_chunk_length:
  assumes "0 < n" "xs \<noteq> []"
  shows "length (last (chunks n xs)) = (if length xs mod n = 0 then n else length xs mod n)"
  using assms
proof (induction n xs rule: chunks.induct)
  case (1 n xs)
  have ch: "chunks n xs = take n xs # chunks n (drop n xs)"
    using "1.prems" by (simp add: chunks_step)
  show ?case
  proof (cases "drop n xs = []")
    case True
    then have le: "length xs \<le> n" by simp
    have "0 < length xs" using "1.prems" by simp
    then have "(if length xs mod n = 0 then n else length xs mod n) = length xs"
      using le by (cases "length xs = n") simp_all
    then show ?thesis using True ch le by (simp add: chunks_Nil)
  next
    case False
    then have lt: "n < length xs" by simp
    have nonempty: "chunks n (drop n xs) \<noteq> []"
      using False "1.prems" by (simp add: chunks_step)
    have "length (last (chunks n (drop n xs))) =
          (if length (drop n xs) mod n = 0 then n else length (drop n xs) mod n)"
      using "1.IH" "1.prems" False by simp
    moreover have "length (drop n xs) mod n = length xs mod n"
      using lt by (simp add: le_mod_geq)
    ultimately show ?thesis using ch nonempty by simp
  qed
qed

subsection \<open>The index\<close>

lemma index_from_absent: "w \<notin> set ws \<Longrightarrow> index_from m n ws w = m w"
  by (induction ws arbitrary: m n) auto

lemma index_from_last:
  assumes "j < length ws" "ws ! j = w" "\<forall>k. j < k \<and> k < length ws \<longrightarrow> ws ! k \<noteq> w"
  shows "index_from m n ws w = Some (n + j)"
  using assms
proof (induction ws arbitrary: m n j)
  case Nil
  then show ?case by simp
next
  case (Cons x ws)
  show ?case
  proof (cases j)
    case 0
    have "w \<notin> set ws"
    proof
      assume "w \<in> set ws"
      then obtain k where "k < length ws" "ws ! k = w" by (auto simp add: in_set_conv_nth)
      then show False using Cons.prems(3) 0 by (auto dest: spec [of _ "Suc k"])
    qed
    then show ?thesis using 0 Cons.prems(2) by (simp add: index_from_absent)
  next
    case (Suc j')
    have "\<forall>k. j' < k \<and> k < length ws \<longrightarrow> ws ! k \<noteq> w"
    proof (intro allI impI)
      fix k assume "j' < k \<and> k < length ws"
      then show "ws ! k \<noteq> w" using Cons.prems(3) Suc by (auto dest: spec [of _ "Suc k"])
    qed
    then have "index_from (m(x \<mapsto> n)) (Suc n) ws w = Some (Suc n + j')"
      using Cons.IH [of j'] Cons.prems(1,2) Suc by simp
    then show ?thesis using Suc by simp
  qed
qed

subsection \<open>Strong checksums have the requested length\<close>

lemma length_strong_of:
  "native_lengths e \<Longrightarrow> accepted e sl st \<Longrightarrow> length (strong_of e st sl data) = unat sl"
  by (auto simp add: native_lengths_def accepted_def native_length_def strong_of_def full_digest_def
      split: if_splits)

lemma wf_block_records:
  "native_lengths e \<Longrightarrow> accepted e sl st \<Longrightarrow> wf_records sl (map (block_record e st sl) blocks)"
  by (simp add: wf_records_def list_all_iff block_record_def length_strong_of)

lemma decoded_block_records:
  "decoded st bl sl (map (block_record e st sl) blocks) = signature_of e bl sl st blocks"
  by (simp add: decoded_def signature_of_def block_record_def comp_def)

lemma length_records_bytes:
  "wf_records sl rs \<Longrightarrow> length (records_bytes rs) = length rs * (4 + unat sl)"
  by (induction rs) (auto simp add: records_bytes_def record_bytes_def wf_records_def length_PutUint32)

lemma length_header_bytes: "length (header_bytes st bl sl) = 12"
  by (simp add: header_bytes_def length_PutUint32)

lemma Signature_loop_read_error:
  assumes "rd input (unat bl) = ((data, Some err), input')" "err \<noteq> EOF"
  shows "Signature_loop e rd wr bl sl st input output ret = Some (Err err, input', output)"
  using assms by (subst Signature_loop.simps) simp

lemma Signature_loop_EOF_with_data:
  assumes "rd input (unat bl) = ((data, Some EOF), input')"
  shows "Signature_loop e rd wr bl sl st input output ret = Some (Ok ret, input', output)"
  using assms by (subst Signature_loop.simps) simp

lemma Signature_loop_weak_write_error:
  assumes "rd input (unat bl) = ((data, None), input')" "length data \<le> unat bl"
    "binary_Write wr output (WeakChecksum e data) = (Some err, output')"
  shows "Signature_loop e rd wr bl sl st input output ret = Some (Err err, input', output')"
  using assms by (subst Signature_loop.simps) simp

lemma Signature_loop_step:
  assumes "rd input (unat bl) = ((data, None), input')" "length data \<le> unat bl"
    "binary_Write wr output (WeakChecksum e data) = (None, output')" "accepted e sl st"
  shows "Signature_loop e rd wr bl sl st input output ret =
         Signature_loop e rd wr bl sl st input' (snd (wr output' (strong_of e st sl data)))
           (ret\<lparr>weak2block := (weak2block ret)(WeakChecksum e data \<mapsto> length (strongSigs ret)),
                strongSigs := strongSigs ret @ [strong_of e st sl data]\<rparr>)"
  using assms
  by (subst Signature_loop.simps) (simp add: CalcStrongSum_accepted Let_def)

subsection \<open>The environment of the examples, and decoding what a build wrote\<close>

lemma native_lengths_env0: "native_lengths env0"
  by (simp add: native_lengths_def env0_def)

lemma accepted_env0_MD4: "accepted env0 16 0x72730136"
  by (simp add: accepted_def recognized_def native_length_def env0_def)

lemma ReadSignature_of_build:
  assumes "accepted e sl st" "native_lengths e" "\<not> z \<or> sl \<noteq> 0 \<or> xs = []"
  shows "ReadSignature (stream_Read z)
           (header_bytes st bl sl @ records_bytes (map (block_record e st sl) (chunks n xs))) =
         Some (Ok (signature_of e bl sl st (chunks n xs)), [])"
proof -
  have "map (block_record e st sl) (chunks n xs) = [] \<or> \<not> z \<or> sl \<noteq> 0"
    using assms(3) by (auto simp add: chunks_Nil)
  then show ?thesis
    using ReadSignature_records [OF wf_block_records [OF assms(2,1)], of "chunks n xs" z st bl]
    by (simp add: decoded_block_records)
qed

subsection \<open>Decoding any byte sequence returns\<close>

lemma binary_Read_stream:
  "binary_Read (stream_Read z) s =
     Some (if s = [] then (Inl EOF, [])
           else if length s < 4 then (Inl ErrUnexpectedEOF, [])
           else (Inr (Uint32 (take 4 s)), drop 4 s))"
  by (simp add: binary_Read_stream_empty binary_Read_stream_short binary_Read_stream_full)

lemma ReadSignature_loop_returns:
  "\<exists>res r'. ReadSignature_loop (stream_Read z) sl xs sigs w2b = Some (res, r') \<and> decode_result_ok res"
proof (induction "length xs" arbitrary: xs sigs w2b rule: less_induct)
  case less
  show ?case
  proof (cases "length xs < 4")
    case True
    then show ?thesis
      by (subst ReadSignature_loop.simps) (simp add: binary_Read_stream decode_result_ok_def)
  next
    case False
    let ?rest = "drop 4 xs"
    have shorter: "length (drop (unat sl) ?rest) < length xs"
      using False by simp
    obtain res r' where
      IH: "ReadSignature_loop (stream_Read z) sl (drop (unat sl) ?rest)
             (sigs @ [take (unat sl) ?rest]) (w2b(Uint32 (take 4 xs) \<mapsto> length sigs)) = Some (res, r')"
        "decode_result_ok res"
      using less [OF shorter] by blast
    have xs: "xs \<noteq> []" using False by auto
    show ?thesis
    proof (cases "?rest = []")
      case True
      then show ?thesis
        using False xs IH
        by (subst ReadSignature_loop.simps)
           (auto simp add: binary_Read_stream stream_Read_def decode_result_ok_def)
    next
      case nonempty: False
      then show ?thesis
        using False xs IH
        by (subst ReadSignature_loop.simps)
           (auto simp add: binary_Read_stream stream_Read_def decode_result_ok_def)
    qed
  qed
qed

lemma ReadSignature_returns:
  "\<exists>res r'. ReadSignature (stream_Read z) xs = Some (res, r') \<and> decode_result_ok res"
proof -
  obtain res r' where
    loop: "ReadSignature_loop (stream_Read z) (Uint32 (take 4 (drop 4 (drop 4 xs))))
             (drop 4 (drop 4 (drop 4 xs))) [] Map.empty = Some (res, r')"
      "decode_result_ok res"
    using ReadSignature_loop_returns by blast
  show ?thesis
    using loop
    by (cases res)
       (auto simp add: ReadSignature_def binary_Read_stream decode_result_ok_def)
qed

subsection \<open>A block length of 0\<close>

lemma Signature_loop_zero_blockLen:
  assumes "Signature_loop e rd wr bl sl st input output ret = Some y"
  shows "\<not> (rd = stream_Read z \<and> wr = bytes_Buffer_Write \<and> bl = 0 \<and> input \<noteq> [] \<and>
            accepted e sl st)"
  apply (rule Signature_loop.raw_induct [where P = "\<lambda>e rd wr bl sl st inp outp ret y.
            \<not> (rd = stream_Read z \<and> wr = bytes_Buffer_Write \<and> bl = 0 \<and> inp \<noteq> [] \<and>
               accepted e sl st)", OF _ assms])
  apply (rule notI)
  apply (clarsimp simp add: stream_Read_def binary_Write_def bytes_Buffer_Write_def
      CalcStrongSum_accepted Let_def)
  apply blast
  done

lemma Signature_zero_blockLen:
  assumes "xs \<noteq> []" "accepted e sl st"
  shows "Signature e (stream_Read z) bytes_Buffer_Write xs out 0 sl st = None"
proof -
  have a: "\<not> (st \<noteq> BLAKE2_SIG_MAGIC e \<and> st \<noteq> MD4_SIG_MAGIC e)"
    using assms(2) by (auto simp add: accepted_def recognized_def)
  have b: "\<not> (if st = BLAKE2_SIG_MAGIC e then BLAKE2_SUM_LENGTH else MD4_SUM_LENGTH) < sl"
    using assms(2)
    by (auto simp add: accepted_def native_length_def BLAKE2_SUM_LENGTH_def MD4_SUM_LENGTH_def
        word_less_nat_alt)
  have "Signature_loop e (stream_Read z) bytes_Buffer_Write 0 sl st xs out' ret = None" for out' ret
    using Signature_loop_zero_blockLen [of e "stream_Read z" bytes_Buffer_Write 0 sl st xs out' ret _ z]
      assms
    by (cases "Signature_loop e (stream_Read z) bytes_Buffer_Write 0 sl st xs out' ret") auto
  then show ?thesis
    unfolding Signature_def using a b
    by (simp add: Let_def binary_Write_def bytes_Buffer_Write_def)
qed

lemma Signature_loop_empty_block:
  assumes "xs \<noteq> []" "accepted e sl st"
  shows "Signature_loop e (stream_Read z) bytes_Buffer_Write 0 sl st xs out ret =
         Signature_loop e (stream_Read z) bytes_Buffer_Write 0 sl st xs
           (out @ record_bytes (block_record e st sl []))
           (ret\<lparr>weak2block := (weak2block ret)(WeakChecksum e [] \<mapsto> length (strongSigs ret)),
                strongSigs := strongSigs ret @ [strong_of e st sl []]\<rparr>)"
  using assms
  by (subst Signature_loop.simps)
     (simp add: stream_Read_def binary_Write_def bytes_Buffer_Write_def
        CalcStrongSum_accepted Let_def record_bytes_def block_record_def)

section \<open>The claims\<close>

text \<open>
  C6. \<^verbatim>\<open>Signature\<close> checks the algorithm tag and the strong length before any I/O: with
  a tag that is not recognized, or a strong length above the native digest length of the
  tag, it returns a configuration error, whatever the reader and the writer are, and
  leaves both as they were (nothing written, nothing read).
\<close>

theorem Signature_rejects_before_io:
  assumes "\<not> recognized e st \<or> native_length e st < unat sl"
  shows "\<exists>err. is_configuration_error err \<and>
           Signature e rd wr input output bl sl st = Some (Err err, input, output)"
proof (cases "recognized e st")
  case False
  then show ?thesis
    by (auto simp add: Signature_def recognized_def)
next
  case True
  then have big: "native_length e st < unat sl" using assms by simp
  have "(if st = BLAKE2_SIG_MAGIC e then BLAKE2_SUM_LENGTH else MD4_SUM_LENGTH) < sl"
    using big
    by (auto simp add: native_length_def BLAKE2_SUM_LENGTH_def MD4_SUM_LENGTH_def
        word_less_nat_alt split: if_splits)
  then show ?thesis
    using True by (auto simp add: Signature_def recognized_def Let_def)
qed

theorem Signature_rejects_before_io_witness:
  "native_length env0 0x72730136 < unat (17 :: uint32) \<and>
   (\<exists>err. is_configuration_error err \<and>
      Signature env0 bytes_Reader_Read bytes_Buffer_Write [1, 2, 3] [] 2 17 0x72730136 =
        Some (Err err, [1, 2, 3], []))"
proof -
  have n: "native_length env0 0x72730136 < unat (17 :: uint32)"
    by (simp add: native_length_def env0_def)
  then have h: "\<not> recognized env0 0x72730136 \<or> native_length env0 0x72730136 < unat (17 :: uint32)"
    by (rule disjI2)
  show ?thesis
    using n Signature_rejects_before_io [OF h, of bytes_Reader_Read bytes_Buffer_Write "[1, 2, 3]" "[]" 2]
    by blast
qed

text \<open>
  C3, as amended. For a recognized tag, \<^verbatim>\<open>CalcStrongSum\<close> with a requested length up to
  the native digest length (32 for BLAKE2, 16 for MD4) returns the first bytes of the
  digest, exactly as many as requested. With a longer request it returns no error value:
  the slice expression panics. The error value for that configuration is the one of
  \<^verbatim>\<open>Signature\<close>, returned before any I/O and before any call of \<^verbatim>\<open>CalcStrongSum\<close>.
\<close>

theorem CalcStrongSum_within_native:
  assumes "native_lengths e" "recognized e st"
  shows "(unat sl \<le> native_length e st \<longrightarrow>
            CalcStrongSum e data st sl = Ok (take (unat sl) (full_digest e st data)) \<and>
            length (take (unat sl) (full_digest e st data)) = unat sl) \<and>
         (native_length e st < unat sl \<longrightarrow>
            CalcStrongSum e data st sl = Panic \<and>
            Signature e rd wr input output bl sl st =
              Some (Err (Errorf_invalid_strongLen sl st), input, output))"
proof (intro conjI impI)
  assume le: "unat sl \<le> native_length e st"
  then have acc: "accepted e sl st" using assms(2) by (simp add: accepted_def)
  show "CalcStrongSum e data st sl = Ok (take (unat sl) (full_digest e st data))"
    using CalcStrongSum_accepted [OF acc] by (simp add: strong_of_def)
  show "length (take (unat sl) (full_digest e st data)) = unat sl"
    using length_strong_of [OF assms(1) acc] by (simp add: strong_of_def)
next
  assume big: "native_length e st < unat sl"
  show "CalcStrongSum e data st sl = Panic"
    using big assms(2)
    by (auto simp add: CalcStrongSum_def native_length_def recognized_def split: if_splits)
  have "(if st = BLAKE2_SIG_MAGIC e then BLAKE2_SUM_LENGTH else MD4_SUM_LENGTH) < sl"
    using big
    by (auto simp add: native_length_def BLAKE2_SUM_LENGTH_def MD4_SUM_LENGTH_def
        word_less_nat_alt split: if_splits)
  then show "Signature e rd wr input output bl sl st =
              Some (Err (Errorf_invalid_strongLen sl st), input, output)"
    using assms(2) by (auto simp add: Signature_def recognized_def Let_def)
qed

theorem CalcStrongSum_within_native_witness:
  "native_lengths env0 \<and> recognized env0 0x72730136 \<and>
   unat (8 :: uint32) \<le> native_length env0 0x72730136 \<and>
   CalcStrongSum env0 [1, 2] 0x72730136 8 = Ok (replicate 8 0xD4) \<and>
   native_length env0 0x72730136 < unat (17 :: uint32) \<and>
   CalcStrongSum env0 [1, 2] 0x72730136 17 = Panic \<and>
   Signature env0 bytes_Reader_Read bytes_Buffer_Write [1, 2] [] 2 17 0x72730136 =
     Some (Err (Errorf_invalid_strongLen 17 0x72730136), [1, 2], [])"
proof -
  have h1: "native_lengths env0" by (rule native_lengths_env0)
  have h2: "recognized env0 0x72730136" by (simp add: recognized_def env0_def)
  have n: "native_length env0 0x72730136 = 16" by (simp add: native_length_def env0_def)
  have d: "full_digest env0 0x72730136 [1, 2] = replicate 16 0xD4"
    by (simp add: full_digest_def env0_def)
  show ?thesis
    using h1 h2 n d
      CalcStrongSum_within_native [OF h1 h2, of 8 "[1, 2]"]
      CalcStrongSum_within_native [OF h1 h2, of 17 "[1, 2]" bytes_Reader_Read bytes_Buffer_Write "[1, 2]" "[]" 2]
    by simp
qed

theorem CalcStrongSum_oversize_counterexample:
  "CalcStrongSum env0 [] 0x72730137 33 = Panic"
  by (simp add: CalcStrongSum_def env0_def)

text \<open>
  C9. With a recognized tag and a strong length within the native length, the strong
  checksum of a block is the first \<open>strongLen\<close> bytes of the full digest of the
  block's bytes. For any reader and writer, an iteration that read the block \<open>data\<close>
  and wrote its weak checksum hands these bytes to the writer and appends them to
  \<open>strongSigs\<close>; and for an input read from memory in blocks of \<open>blockLen \<ge> 1\<close> bytes
  the build returns with these bytes at index \<open>i\<close> for block \<open>i\<close>, and in the record
  of each block after its weak checksum.
\<close>

theorem strong_checksums_are_truncated_digests:
  assumes "accepted e sl st"
  shows "(rd input (unat bl) = ((data, None), input') \<and> length data \<le> unat bl \<and>
          binary_Write wr output (WeakChecksum e data) = (None, output') \<longrightarrow>
            Signature_loop e rd wr bl sl st input output ret =
            Signature_loop e rd wr bl sl st input'
              (snd (wr output' (take (unat sl) (full_digest e st data))))
              (ret\<lparr>weak2block := (weak2block ret)(WeakChecksum e data \<mapsto> length (strongSigs ret)),
                   strongSigs := strongSigs ret @ [take (unat sl) (full_digest e st data)]\<rparr>)) \<and>
         (0 < unat bl \<longrightarrow>
            (\<exists>sg out.
               Signature e (stream_Read z) bytes_Buffer_Write xs [] bl sl st = Some (Ok sg, [], out) \<and>
               length (strongSigs sg) = length (chunks (unat bl) xs) \<and>
               (\<forall>i < length (chunks (unat bl) xs).
                  strongSigs sg ! i = take (unat sl) (full_digest e st (chunks (unat bl) xs ! i))) \<and>
               out = header_bytes st bl sl @
                     concat (map (\<lambda>b. PutUint32 (WeakChecksum e b) @
                                      take (unat sl) (full_digest e st b))
                               (chunks (unat bl) xs))))"
proof (intro conjI impI)
  assume a: "rd input (unat bl) = ((data, None), input') \<and> length data \<le> unat bl \<and>
          binary_Write wr output (WeakChecksum e data) = (None, output')"
  have a1: "rd input (unat bl) = ((data, None), input')"
    and a2: "length data \<le> unat bl"
    and a3: "binary_Write wr output (WeakChecksum e data) = (None, output')"
    using a by simp_all
  show "Signature_loop e rd wr bl sl st input output ret =
            Signature_loop e rd wr bl sl st input'
              (snd (wr output' (take (unat sl) (full_digest e st data))))
              (ret\<lparr>weak2block := (weak2block ret)(WeakChecksum e data \<mapsto> length (strongSigs ret)),
                   strongSigs := strongSigs ret @ [take (unat sl) (full_digest e st data)]\<rparr>)"
    using a1 a2 a3 assms
    by (simp add: Signature_loop_step [where rd = rd and data = data] strong_of_def)
next
  assume bl: "0 < unat bl"
  have "records_bytes (map (block_record e st sl) (chunks (unat bl) xs)) =
        concat (map (\<lambda>b. PutUint32 (WeakChecksum e b) @ take (unat sl) (full_digest e st b))
                  (chunks (unat bl) xs))"
    by (simp add: records_bytes_def record_bytes_def block_record_def strong_of_def comp_def)
  then show "\<exists>sg out.
               Signature e (stream_Read z) bytes_Buffer_Write xs [] bl sl st = Some (Ok sg, [], out) \<and>
               length (strongSigs sg) = length (chunks (unat bl) xs) \<and>
               (\<forall>i < length (chunks (unat bl) xs).
                  strongSigs sg ! i = take (unat sl) (full_digest e st (chunks (unat bl) xs ! i))) \<and>
               out = header_bytes st bl sl @
                     concat (map (\<lambda>b. PutUint32 (WeakChecksum e b) @
                                      take (unat sl) (full_digest e st b))
                               (chunks (unat bl) xs))"
    using Signature_stream [OF bl assms, of z xs "[]"]
    by (simp add: signature_of_def strong_of_def)
qed

theorem strong_checksums_are_truncated_digests_witness:
  "accepted env0 4 0x72730137 \<and>
   bytes_Reader_Read [1, 2, 3] (unat (2 :: uint32)) = (([1, 2], None), [3]) \<and>
   length [1, 2 :: byte] \<le> unat (2 :: uint32) \<and>
   binary_Write bytes_Buffer_Write [] (WeakChecksum env0 [1, 2]) = (None, [0, 0, 0, 3]) \<and>
   Signature_loop env0 bytes_Reader_Read bytes_Buffer_Write 2 4 0x72730137 [1, 2, 3] []
     \<lparr>sigType = 0x72730137, blockLen = 2, strongLen = 4, strongSigs = [], weak2block = Map.empty\<rparr> =
   Signature_loop env0 bytes_Reader_Read bytes_Buffer_Write 2 4 0x72730137 [3]
     [0, 0, 0, 3, 0xB2, 0xB2, 0xB2, 0xB2]
     \<lparr>sigType = 0x72730137, blockLen = 2, strongLen = 4, strongSigs = [[0xB2, 0xB2, 0xB2, 0xB2]],
      weak2block = [3 \<mapsto> 0]\<rparr> \<and>
   0 < unat (2 :: uint32) \<and>
   (\<exists>sg out.
      Signature env0 bytes_Reader_Read bytes_Buffer_Write [1, 2, 3] [] 2 4 0x72730137 =
        Some (Ok sg, [], out) \<and>
      strongSigs sg = [[0xB2, 0xB2, 0xB2, 0xB2], [0xB2, 0xB2, 0xB2, 0xB2]] \<and>
      out = [0x72, 0x73, 0x01, 0x37, 0, 0, 0, 2, 0, 0, 0, 4,
             0, 0, 0, 3, 0xB2, 0xB2, 0xB2, 0xB2, 0, 0, 0, 3, 0xB2, 0xB2, 0xB2, 0xB2])"
proof -
  have h: "accepted env0 4 0x72730137"
    by (simp add: accepted_def recognized_def native_length_def env0_def)
  have r: "bytes_Reader_Read [1, 2, 3] (unat (2 :: uint32)) = (([1, 2], None), [3])"
    by (simp add: bytes_Reader_Read_def stream_Read_def)
  have l: "length [1, 2 :: byte] \<le> unat (2 :: uint32)" by simp
  have w: "WeakChecksum env0 [1, 2] = 3" "WeakChecksum env0 [3] = 3"
    by (simp_all add: env0_def)
  have p: "PutUint32 3 = [0, 0, 0, 3]" "PutUint32 0x72730137 = [0x72, 0x73, 0x01, 0x37]"
    "PutUint32 2 = [0, 0, 0, 2]" "PutUint32 4 = [0, 0, 0, 4]"
    by (simp_all add: PutUint32_def)
  have b: "binary_Write bytes_Buffer_Write [] (WeakChecksum env0 [1, 2]) = (None, [0, 0, 0, 3])"
    by (simp add: binary_Write_def bytes_Buffer_Write_def w p)
  have r4: "replicate 4 (0xB2 :: byte) = [0xB2, 0xB2, 0xB2, 0xB2]"
    by (simp add: numeral_eq_Suc)
  have d: "take (unat (4 :: uint32)) (full_digest env0 0x72730137 x) = [0xB2, 0xB2, 0xB2, 0xB2]" for x
    by (simp add: full_digest_def env0_def r4)
  have d4: "take 4 (full_digest env0 0x72730137 x) = [0xB2, 0xB2, 0xB2, 0xB2]" for x
    using d [of x] by simp
  have bl: "0 < unat (2 :: uint32)" by simp
  have ch: "chunks (unat (2 :: uint32)) [1, 2, 3 :: byte] = [[1, 2], [3]]"
    by (simp add: chunks.simps)
  have inst: "(bytes_Reader_Read [1, 2, 3] (unat (2 :: uint32)) = (([1, 2], None), [3]) \<and>
       length [1, 2 :: byte] \<le> unat (2 :: uint32) \<and>
       binary_Write bytes_Buffer_Write [] (WeakChecksum env0 [1, 2]) = (None, [0, 0, 0, 3]) \<longrightarrow>
         Signature_loop env0 bytes_Reader_Read bytes_Buffer_Write 2 4 0x72730137 [1, 2, 3] []
           \<lparr>sigType = 0x72730137, blockLen = 2, strongLen = 4, strongSigs = [], weak2block = Map.empty\<rparr> =
         Signature_loop env0 bytes_Reader_Read bytes_Buffer_Write 2 4 0x72730137 [3]
           (snd (bytes_Buffer_Write [0, 0, 0, 3] (take (unat (4 :: uint32)) (full_digest env0 0x72730137 [1, 2]))))
           (\<lparr>sigType = 0x72730137, blockLen = 2, strongLen = 4, strongSigs = [], weak2block = Map.empty\<rparr>
            \<lparr>weak2block := (Map.empty)(WeakChecksum env0 [1, 2] \<mapsto> length ([] :: byte list list)),
              strongSigs := [] @ [take (unat (4 :: uint32)) (full_digest env0 0x72730137 [1, 2])]\<rparr>)) \<and>
      (0 < unat (2 :: uint32) \<longrightarrow>
         (\<exists>sg out.
            Signature env0 (stream_Read True) bytes_Buffer_Write [1, 2, 3] [] 2 4 0x72730137 =
              Some (Ok sg, [], out) \<and>
            length (strongSigs sg) = length (chunks (unat (2 :: uint32)) [1, 2, 3 :: byte]) \<and>
            (\<forall>i < length (chunks (unat (2 :: uint32)) [1, 2, 3 :: byte]).
               strongSigs sg ! i =
               take (unat (4 :: uint32)) (full_digest env0 0x72730137 (chunks (unat (2 :: uint32)) [1, 2, 3] ! i))) \<and>
            out = header_bytes 0x72730137 2 4 @
                  concat (map (\<lambda>b. PutUint32 (WeakChecksum env0 b) @
                                   take (unat (4 :: uint32)) (full_digest env0 0x72730137 b))
                            (chunks (unat (2 :: uint32)) [1, 2, 3]))))"
    using strong_checksums_are_truncated_digests [OF h, of bytes_Reader_Read "[1, 2, 3]" 2 "[1, 2]" "[3]"
        bytes_Buffer_Write "[]" "[0, 0, 0, 3]"
        "\<lparr>sigType = 0x72730137, blockLen = 2, strongLen = 4, strongSigs = [], weak2block = Map.empty\<rparr>"
        True "[1, 2, 3]"]
    by simp
  have step: "Signature_loop env0 bytes_Reader_Read bytes_Buffer_Write 2 4 0x72730137 [1, 2, 3] []
     \<lparr>sigType = 0x72730137, blockLen = 2, strongLen = 4, strongSigs = [], weak2block = Map.empty\<rparr> =
   Signature_loop env0 bytes_Reader_Read bytes_Buffer_Write 2 4 0x72730137 [3]
     [0, 0, 0, 3, 0xB2, 0xB2, 0xB2, 0xB2]
     \<lparr>sigType = 0x72730137, blockLen = 2, strongLen = 4, strongSigs = [[0xB2, 0xB2, 0xB2, 0xB2]],
      weak2block = [3 \<mapsto> 0]\<rparr>"
    using inst r l b by (simp add: d4 w bytes_Buffer_Write_def)
  obtain sg out where
    run: "Signature env0 (stream_Read True) bytes_Buffer_Write [1, 2, 3] [] 2 4 0x72730137 =
            Some (Ok sg, [], out)"
    and len: "length (strongSigs sg) = length (chunks (unat (2 :: uint32)) [1, 2, 3 :: byte])"
    and nth: "\<forall>i < length (chunks (unat (2 :: uint32)) [1, 2, 3 :: byte]).
               strongSigs sg ! i =
               take (unat (4 :: uint32)) (full_digest env0 0x72730137 (chunks (unat (2 :: uint32)) [1, 2, 3] ! i))"
    and out: "out = header_bytes 0x72730137 2 4 @
                  concat (map (\<lambda>b. PutUint32 (WeakChecksum env0 b) @
                                   take (unat (4 :: uint32)) (full_digest env0 0x72730137 b))
                            (chunks (unat (2 :: uint32)) [1, 2, 3]))"
    using inst bl by blast
  have len2: "length (strongSigs sg) = 2" using len by (simp only: ch) simp
  have n0: "strongSigs sg ! 0 = [0xB2, 0xB2, 0xB2, 0xB2]"
    using nth [rule_format, of 0] by (simp only: ch d) simp
  have n1: "strongSigs sg ! 1 = [0xB2, 0xB2, 0xB2, 0xB2]"
    using nth [rule_format, of 1] by (simp only: ch d) simp
  have sigs: "strongSigs sg = [[0xB2, 0xB2, 0xB2, 0xB2], [0xB2, 0xB2, 0xB2, 0xB2]]"
    using len2 n0 n1 by (auto simp add: list_eq_iff_nth_eq less_Suc_eq numeral_2_eq_2)
  have out2: "out = [0x72, 0x73, 0x01, 0x37, 0, 0, 0, 2, 0, 0, 0, 4,
             0, 0, 0, 3, 0xB2, 0xB2, 0xB2, 0xB2, 0, 0, 0, 3, 0xB2, 0xB2, 0xB2, 0xB2]"
    unfolding out by (simp only: ch d header_bytes_def) (simp add: w p)
  show ?thesis
    using h r l b step bl run sigs out2
    unfolding bytes_Reader_Read_def by blast
qed

text \<open>
  C7. For an input of \<open>L\<close> bytes read from memory and \<open>blockLen = B \<ge> 1\<close>, the build
  keeps \<open>(L + B - 1) div B\<close> strong checksums, the ceiling of \<open>L / B\<close>, and writes as many
  records after the 12 bytes of the header (none for the empty input, which leaves the
  map empty); the blocks are those of the partition, whose last block has \<open>L mod B\<close>
  bytes, or \<open>B\<close> when that is 0.
\<close>

theorem number_of_blocks:
  assumes "0 < unat bl" "accepted e sl st" "native_lengths e"
  shows "\<exists>sg out.
           Signature e (stream_Read z) bytes_Buffer_Write xs [] bl sl st = Some (Ok sg, [], out) \<and>
           length (strongSigs sg) = (length xs + unat bl - 1) div unat bl \<and>
           length out = 12 + ((length xs + unat bl - 1) div unat bl) * (4 + unat sl) \<and>
           strongSigs sg = map (strong_of e st sl) (chunks (unat bl) xs) \<and>
           out = header_bytes st bl sl @
                 records_bytes (map (block_record e st sl) (chunks (unat bl) xs)) \<and>
           (xs = [] \<longrightarrow> strongSigs sg = [] \<and> weak2block sg = Map.empty \<and>
                         out = header_bytes st bl sl) \<and>
           (xs \<noteq> [] \<longrightarrow>
              length (last (chunks (unat bl) xs)) =
                (if length xs mod unat bl = 0 then unat bl else length xs mod unat bl))"
proof -
  let ?blocks = "chunks (unat bl) xs"
  let ?sg = "signature_of e bl sl st ?blocks"
  let ?out = "header_bytes st bl sl @ records_bytes (map (block_record e st sl) ?blocks)"
  have run: "Signature e (stream_Read z) bytes_Buffer_Write xs [] bl sl st = Some (Ok ?sg, [], ?out)"
    using Signature_stream [OF assms(1,2), of z xs "[]"] by simp
  have n: "length ?blocks = (length xs + unat bl - 1) div unat bl"
    by (rule length_chunks [OF assms(1)])
  have c1: "length (strongSigs ?sg) = (length xs + unat bl - 1) div unat bl"
    using n by (simp add: signature_of_def)
  have c2: "length ?out = 12 + ((length xs + unat bl - 1) div unat bl) * (4 + unat sl)"
    using n length_records_bytes [OF wf_block_records [OF assms(3,2), of ?blocks]]
    by (simp add: length_header_bytes)
  have c3: "strongSigs ?sg = map (strong_of e st sl) ?blocks"
    by (simp add: signature_of_def)
  have c4: "xs = [] \<longrightarrow> strongSigs ?sg = [] \<and> weak2block ?sg = Map.empty \<and> ?out = header_bytes st bl sl"
    by (simp add: signature_of_def chunks_Nil records_bytes_Nil)
  have c5: "xs \<noteq> [] \<longrightarrow>
              length (last ?blocks) =
                (if length xs mod unat bl = 0 then unat bl else length xs mod unat bl)"
    using last_chunk_length [OF assms(1)] by blast
  show ?thesis
    using run c1 c2 c3 c4 c5 by blast
qed

theorem number_of_blocks_witness:
  "0 < unat (2 :: uint32) \<and> accepted env0 16 0x72730136 \<and> native_lengths env0 \<and>
   (\<exists>sg out.
      Signature env0 bytes_Reader_Read bytes_Buffer_Write [1, 2, 3, 4, 5] [] 2 16 0x72730136 =
        Some (Ok sg, [], out) \<and>
      length (strongSigs sg) = 3 \<and> length out = 72 \<and>
      length (last (chunks 2 [1, 2, 3, 4, 5 :: byte])) = 1)"
proof -
  have h1: "0 < unat (2 :: uint32)" by simp
  have h2: "accepted env0 16 0x72730136" by (rule accepted_env0_MD4)
  have h3: "native_lengths env0" by (rule native_lengths_env0)
  obtain sg out where
    r: "Signature env0 (stream_Read True) bytes_Buffer_Write [1, 2, 3, 4, 5] [] 2 16 0x72730136 =
          Some (Ok sg, [], out)"
    and a: "length (strongSigs sg) = (length [1, 2, 3, 4, 5 :: byte] + unat (2 :: uint32) - 1) div unat (2 :: uint32)"
    and b: "length out = 12 + ((length [1, 2, 3, 4, 5 :: byte] + unat (2 :: uint32) - 1) div unat (2 :: uint32)) * (4 + unat (16 :: uint32))"
    and c: "[1, 2, 3, 4, 5 :: byte] \<noteq> [] \<longrightarrow>
              length (last (chunks (unat (2 :: uint32)) [1, 2, 3, 4, 5 :: byte])) =
                (if length [1, 2, 3, 4, 5 :: byte] mod unat (2 :: uint32) = 0 then unat (2 :: uint32)
                 else length [1, 2, 3, 4, 5 :: byte] mod unat (2 :: uint32))"
    using number_of_blocks [OF h1 h2 h3, of True "[1, 2, 3, 4, 5]"] by blast
  have a': "length (strongSigs sg) = 3" using a by simp
  have b': "length out = 72" using b by simp
  have c': "length (last (chunks 2 [1, 2, 3, 4, 5 :: byte])) = 1" using c by simp
  show ?thesis
    unfolding bytes_Reader_Read_def
    using h1 h2 h3 r a' b' c' by blast
qed

text \<open>
  C8, as amended. With \<open>blockLen \<ge> 1\<close> and the input read from memory, the blocks that the loop
  processes are the successive pieces of \<open>blockLen\<close> bytes of the input: block \<open>i\<close>
  starts at byte \<open>i * blockLen\<close>, every block before the last has \<open>blockLen\<close> bytes,
  the pieces together are the whole input (the short piece at the end is a block, nothing
  is dropped, the reader is left empty), no block is empty, and the build returns.
\<close>

theorem build_reads_successive_chunks:
  assumes "0 < unat bl" "accepted e sl st"
  shows "\<exists>sg out.
           Signature e (stream_Read z) bytes_Buffer_Write xs [] bl sl st = Some (Ok sg, [], out) \<and>
           strongSigs sg = map (strong_of e st sl) (chunks (unat bl) xs) \<and>
           weak2block sg = index_from Map.empty 0 (map (WeakChecksum e) (chunks (unat bl) xs)) \<and>
           out = header_bytes st bl sl @
                 records_bytes (map (block_record e st sl) (chunks (unat bl) xs)) \<and>
           concat (chunks (unat bl) xs) = xs \<and>
           (\<forall>i < length (chunks (unat bl) xs).
              chunks (unat bl) xs ! i = take (unat bl) (drop (i * unat bl) xs)) \<and>
           (\<forall>i. Suc i < length (chunks (unat bl) xs) \<longrightarrow>
              length (chunks (unat bl) xs ! i) = unat bl) \<and>
           (\<forall>b \<in> set (chunks (unat bl) xs). b \<noteq> [] \<and> length b \<le> unat bl)"
proof -
  let ?blocks = "chunks (unat bl) xs"
  let ?sg = "signature_of e bl sl st ?blocks"
  let ?out = "header_bytes st bl sl @ records_bytes (map (block_record e st sl) ?blocks)"
  have run: "Signature e (stream_Read z) bytes_Buffer_Write xs [] bl sl st = Some (Ok ?sg, [], ?out)"
    using Signature_stream [OF assms(1,2), of z xs "[]"] by simp
  have c1: "strongSigs ?sg = map (strong_of e st sl) ?blocks"
    and c2: "weak2block ?sg = index_from Map.empty 0 (map (WeakChecksum e) ?blocks)"
    by (simp_all add: signature_of_def)
  have c3: "concat ?blocks = xs"
    by (rule concat_chunks [OF assms(1)])
  have c4: "\<forall>i < length ?blocks. ?blocks ! i = take (unat bl) (drop (i * unat bl) xs)"
    using chunks_nth [OF assms(1)] by blast
  have c5: "\<forall>b \<in> set ?blocks. b \<noteq> [] \<and> length b \<le> unat bl"
    using chunks_nonempty [OF assms(1)] by blast
  have c6: "\<forall>i. Suc i < length ?blocks \<longrightarrow> length (?blocks ! i) = unat bl"
    using chunks_full [OF assms(1)] by blast
  show ?thesis
    using run c1 c2 c3 c4 c5 c6 by blast
qed

theorem build_reads_successive_chunks_witness:
  "0 < unat (2 :: uint32) \<and> accepted env0 16 0x72730136 \<and>
   (\<exists>sg out.
      Signature env0 bytes_Reader_Read bytes_Buffer_Write [1, 2, 3, 4, 5] [] 2 16 0x72730136 =
        Some (Ok sg, [], out) \<and>
      strongSigs sg = map (strong_of env0 0x72730136 16) [[1, 2], [3, 4], [5]] \<and>
      out = header_bytes 0x72730136 2 16 @
            records_bytes (map (block_record env0 0x72730136 16) [[1, 2], [3, 4], [5]]))"
proof -
  have h1: "0 < unat (2 :: uint32)" by simp
  have h2: "accepted env0 16 0x72730136" by (rule accepted_env0_MD4)
  have ch: "chunks 2 [1, 2, 3, 4, 5 :: byte] = [[1, 2], [3, 4], [5]]"
    by (simp add: chunks.simps)
  show ?thesis
    using h1 h2 build_reads_successive_chunks [OF h1 h2, of True "[1, 2, 3, 4, 5]"]
    unfolding bytes_Reader_Read_def by (simp add: ch) blast
qed

text \<open>
  The claim C8 as stated fails for the block length 0, which \<^verbatim>\<open>Signature\<close> accepts:
  on the input \<^verbatim>\<open>"a"\<close> every \<^verbatim>\<open>Read\<close> into the empty buffer gives no byte and no
  error, each iteration writes the record of an empty block and keeps its checksums, and
  the build never returns.
\<close>

theorem build_reads_successive_chunks_counterexample:
  "Signature_loop env0 bytes_Reader_Read bytes_Buffer_Write 0 16 0x72730136 [0x61]
     (header_bytes 0x72730136 0 16)
     \<lparr>sigType = 0x72730136, blockLen = 0, strongLen = 16, strongSigs = [],
      weak2block = Map.empty\<rparr> =
   Signature_loop env0 bytes_Reader_Read bytes_Buffer_Write 0 16 0x72730136 [0x61]
     (header_bytes 0x72730136 0 16 @ record_bytes (block_record env0 0x72730136 16 []))
     \<lparr>sigType = 0x72730136, blockLen = 0, strongLen = 16,
      strongSigs = [strong_of env0 0x72730136 16 []],
      weak2block = [WeakChecksum env0 [] \<mapsto> 0]\<rparr> \<and>
   Signature env0 bytes_Reader_Read bytes_Buffer_Write [0x61] [] 0 16 0x72730136 = None"
proof -
  have ne: "[0x61 :: byte] \<noteq> []" by simp
  show ?thesis
    unfolding bytes_Reader_Read_def
    using Signature_loop_empty_block [OF ne accepted_env0_MD4, of True "header_bytes 0x72730136 0 16"
        "\<lparr>sigType = 0x72730136, blockLen = 0, strongLen = 16, strongSigs = [], weak2block = Map.empty\<rparr>"]
      Signature_zero_blockLen [OF ne accepted_env0_MD4, of True "[]"]
    by simp
qed

text \<open>
  C1, as amended. For every byte sequence read from memory, \<open>blockLen \<ge> 1\<close>, a
  recognized tag and a strong length within the native length, the build returns a
  signature and decoding the bytes it wrote returns the same signature, provided that the
  strong length is not 0, or the input is empty, or the reader that decodes answers an
  empty \<^verbatim>\<open>Read\<close> at the end of the data with no error (\<open>z\<close> false: a
  \<^verbatim>\<open>bytes.Buffer\<close>, a file).
\<close>

theorem decode_of_build:
  assumes "0 < unat bl" "accepted e sl st" "native_lengths e" "\<not> z \<or> sl \<noteq> 0 \<or> xs = []"
  shows "\<exists>sg out.
           Signature e (stream_Read z') bytes_Buffer_Write xs [] bl sl st = Some (Ok sg, [], out) \<and>
           ReadSignature (stream_Read z) out = Some (Ok sg, [])"
  using Signature_stream [OF assms(1,2), of z' xs "[]"]
    ReadSignature_of_build [OF assms(2,3,4), of bl "unat bl"]
  by simp

theorem decode_of_build_witness:
  "0 < unat (2 :: uint32) \<and> accepted env0 16 0x72730136 \<and> native_lengths env0 \<and>
   (16 :: uint32) \<noteq> 0 \<and>
   (\<exists>sg out.
      Signature env0 bytes_Reader_Read bytes_Buffer_Write [1, 2, 3] [] 2 16 0x72730136 =
        Some (Ok sg, [], out) \<and>
      ReadSignature bytes_Reader_Read out = Some (Ok sg, []))"
proof -
  have h1: "0 < unat (2 :: uint32)" by simp
  have h2: "accepted env0 16 0x72730136" by (rule accepted_env0_MD4)
  have h3: "native_lengths env0" by (rule native_lengths_env0)
  have nz: "(16 :: uint32) \<noteq> 0" by simp
  then have h4: "\<not> True \<or> (16 :: uint32) \<noteq> 0 \<or> [1, 2, 3 :: byte] = []" by simp
  show ?thesis
    unfolding bytes_Reader_Read_def
    using h1 h2 h3 nz decode_of_build [OF h1 h2 h3 h4, of True] by blast
qed

text \<open>
  The claim C1 as stated fails: the build accepts the strong length 0, and a
  \<^verbatim>\<open>bytes.Reader\<close> over the 16 bytes it wrote for the one-byte input \<^verbatim>\<open>"a"\<close>
  answers the empty read of the strong checksum with \<^verbatim>\<open>io.EOF\<close>.
\<close>

theorem decode_of_build_counterexample:
  "Signature env0 bytes_Reader_Read bytes_Buffer_Write [0x61] [] 1 0 0x72730136 =
     Some (Ok \<lparr>sigType = 0x72730136, blockLen = 1, strongLen = 0, strongSigs = [[]],
               weak2block = [0x61 \<mapsto> 0]\<rparr>, [],
           [0x72, 0x73, 0x01, 0x36, 0, 0, 0, 1, 0, 0, 0, 0, 0, 0, 0, 0x61]) \<and>
   ReadSignature bytes_Reader_Read
     [0x72, 0x73, 0x01, 0x36, 0, 0, 0, 1, 0, 0, 0, 0, 0, 0, 0, 0x61] = Some (Err EOF, [])"
proof -
  have acc: "accepted env0 0 0x72730136"
    by (simp add: accepted_def recognized_def native_length_def env0_def)
  have ch: "chunks (Suc 0) [0x61 :: byte] = [[0x61]]"
    by (simp add: chunks.simps)
  have bytes: "[0x72, 0x73, 0x01, 0x36, 0, 0, 0, 1, 0, 0, 0, 0, 0, 0, 0, 0x61] =
               header_bytes 0x72730136 1 0 @ records_bytes [(0x61, [])]"
    by (simp add: header_bytes_def records_bytes_def record_bytes_def PutUint32_def)
  have build: "Signature env0 bytes_Reader_Read bytes_Buffer_Write [0x61] [] 1 0 0x72730136 =
     Some (Ok \<lparr>sigType = 0x72730136, blockLen = 1, strongLen = 0, strongSigs = [[]],
               weak2block = [0x61 \<mapsto> 0]\<rparr>, [],
           header_bytes 0x72730136 1 0 @ records_bytes [(0x61, [])])"
    unfolding bytes_Reader_Read_def
    using Signature_stream [of 1 env0 0 "0x72730136" True "[0x61]" "[]"] acc
    by (simp add: ch signature_of_def block_record_def strong_of_def env0_def)
  have dec: "ReadSignature bytes_Reader_Read (header_bytes 0x72730136 1 0 @ records_bytes [(0x61, [])]) =
             Some (Err EOF, [])"
    unfolding bytes_Reader_Read_def
    by (rule ReadSignature_empty_strong_EOF) (simp_all add: wf_records_def)
  show ?thesis
    using build dec by (simp only: bytes)
qed

text \<open>
  C4, as amended. After a header with strong length \<open>sl\<close> and complete records, read
  from memory: the end of the data where the next weak checksum would begin ends the
  decoding with the records read so far, in order, provided that \<open>sl\<close> is not 0, or
  there is no record, or the reader answers an empty \<^verbatim>\<open>Read\<close> at the end of the
  data with no error (\<open>z\<close> false); and a weak checksum followed by fewer than \<open>sl\<close>
  bytes makes the decoding return an error (\<^verbatim>\<open>io.EOF\<close> when no byte follows, the
  "got only" error otherwise).
\<close>

theorem decode_end_of_stream:
  assumes "wf_records sl rs"
  shows "(rs = [] \<or> \<not> z \<or> sl \<noteq> 0 \<longrightarrow>
            ReadSignature (stream_Read z) (header_bytes magic bl sl @ records_bytes rs) =
              Some (Ok (decoded magic bl sl rs), [])) \<and>
         (length t < unat sl \<longrightarrow>
            ReadSignature (stream_Read z)
              (header_bytes magic bl sl @ records_bytes rs @ PutUint32 w @ t) =
            Some (Err (if t = [] then EOF else Errorf_got_only (length t) sl), []))"
  using ReadSignature_records [OF assms, of z magic bl]
    ReadSignature_truncated [OF assms, of t z magic bl w]
  by simp

theorem decode_end_of_stream_witness:
  "wf_records 2 [(7, [1, 2]), (7, [3, 4])] \<and>
   (2 :: uint32) \<noteq> 0 \<and>
   ReadSignature bytes_Reader_Read
     (header_bytes 0x72730136 2048 2 @ records_bytes [(7, [1, 2]), (7, [3, 4])]) =
     Some (Ok \<lparr>sigType = 0x72730136, blockLen = 2048, strongLen = 2,
               strongSigs = [[1, 2], [3, 4]], weak2block = [7 \<mapsto> 1]\<rparr>, []) \<and>
   length [5 :: byte] < unat (2 :: uint32) \<and>
   ReadSignature bytes_Reader_Read
     (header_bytes 0x72730136 2048 2 @ records_bytes [(7, [1, 2]), (7, [3, 4])] @
      PutUint32 9 @ [5]) = Some (Err (Errorf_got_only 1 2), [])"
proof -
  have h1: "wf_records 2 [(7, [1, 2]), (7, [3, 4])]" by (simp add: wf_records_def)
  have h2: "(2 :: uint32) \<noteq> 0"
    by simp
  have h3: "length [5 :: byte] < unat (2 :: uint32)" by simp
  have d: "decoded 0x72730136 2048 2 [(7, [1, 2]), (7, [3, 4])] =
           \<lparr>sigType = 0x72730136, blockLen = 2048, strongLen = 2,
            strongSigs = [[1, 2], [3, 4]], weak2block = [7 \<mapsto> 1]\<rparr>"
    by (simp add: decoded_def)
  show ?thesis
    unfolding bytes_Reader_Read_def
    using h1 h2 h3 d decode_end_of_stream [OF h1, of True "0x72730136" 2048 "[5]" 9]
    by simp
qed

text \<open>
  The claim C4 as stated fails: a header with strong length 0 and two complete records
  (a weak checksum and no strong byte each) end at a record boundary, and a
  \<^verbatim>\<open>bytes.Reader\<close> over these 20 bytes makes the decoding return \<^verbatim>\<open>io.EOF\<close>.
\<close>

theorem decode_end_of_stream_counterexample:
  "wf_records 0 [(1, []), (2, [])] \<and>
   header_bytes 0x72730137 2048 0 @ records_bytes [(1, []), (2, [])] =
     [0x72, 0x73, 0x01, 0x37, 0, 0, 8, 0, 0, 0, 0, 0, 0, 0, 0, 1, 0, 0, 0, 2] \<and>
   ReadSignature bytes_Reader_Read
     [0x72, 0x73, 0x01, 0x37, 0, 0, 8, 0, 0, 0, 0, 0, 0, 0, 0, 1, 0, 0, 0, 2] =
     Some (Err EOF, [])"
proof -
  have wf: "wf_records 0 [(1, []), (2, [])]" by (simp add: wf_records_def)
  have bytes: "header_bytes 0x72730137 2048 0 @ records_bytes [(1, []), (2, [])] =
     [0x72, 0x73, 0x01, 0x37, 0, 0, 8, 0, 0, 0, 0, 0, 0, 0, 0, 1, 0, 0, 0, 2]"
    by (simp add: header_bytes_def records_bytes_def record_bytes_def PutUint32_def)
  have "ReadSignature bytes_Reader_Read
          (header_bytes 0x72730137 2048 0 @ records_bytes [(1, []), (2, [])]) = Some (Err EOF, [])"
    unfolding bytes_Reader_Read_def
    by (rule ReadSignature_empty_strong_EOF [OF wf]) simp
  then show ?thesis
    using wf bytes by simp
qed

text \<open>
  C10, as amended. \<^verbatim>\<open>ReadSignature\<close> checks none of the three header fields: for
  every tag, block length and strong length \<open>sl\<close>, and complete records read from
  memory, it returns a signature with these three values as they are, provided that
  \<open>sl\<close> is not 0, or there is no record, or the reader answers an empty \<^verbatim>\<open>Read\<close> at
  the end of the data with no error (\<open>z\<close> false). On every byte sequence it returns,
  and never with a configuration error or a panic.
\<close>

theorem decode_checks_no_header_field:
  assumes "wf_records sl rs" "rs = [] \<or> \<not> z \<or> sl \<noteq> 0"
  shows "(\<exists>sg. ReadSignature (stream_Read z) (header_bytes magic bl sl @ records_bytes rs) =
                 Some (Ok sg, []) \<and>
               sigType sg = magic \<and> blockLen sg = bl \<and> strongLen sg = sl \<and>
               strongSigs sg = map snd rs) \<and>
         (\<exists>res r'. ReadSignature (stream_Read z) xs = Some (res, r') \<and> decode_result_ok res)"
  using ReadSignature_records [OF assms, of magic bl] ReadSignature_returns [of z xs]
  by (simp add: decoded_def)

theorem decode_checks_no_header_field_witness:
  "wf_records 0 [(5, []), (6, [])] \<and>
   (\<exists>sg. ReadSignature bytes_Buffer_Read (header_bytes 0xDEADBEEF 0 0 @ records_bytes [(5, []), (6, [])]) =
            Some (Ok sg, []) \<and>
          sigType sg = 0xDEADBEEF \<and> blockLen sg = 0 \<and> strongLen sg = 0 \<and>
          strongSigs sg = [[], []]) \<and>
   (\<exists>res r'. ReadSignature bytes_Buffer_Read [1, 2, 3] = Some (res, r') \<and> decode_result_ok res)"
proof -
  have h1: "wf_records 0 [(5, []), (6, [])]" by (simp add: wf_records_def)
  have h2: "[(5 :: uint32, [] :: byte list), (6, [])] = [] \<or> \<not> False \<or> (0 :: uint32) \<noteq> 0"
    by simp
  show ?thesis
    unfolding bytes_Buffer_Read_def
    using h1 decode_checks_no_header_field [OF h1 h2, of "0xDEADBEEF" 0 "[1, 2, 3]"]
    by simp
qed

text \<open>
  The claim C10 as stated fails: with an unknown tag, block length 0, strong length 0
  and one complete record, a \<^verbatim>\<open>bytes.Reader\<close> makes the decoding return \<^verbatim>\<open>io.EOF\<close>.
\<close>

theorem decode_checks_no_header_field_counterexample:
  "ReadSignature bytes_Reader_Read [0, 0, 0, 0, 0, 0, 0, 0, 0, 0, 0, 0, 0, 0, 0, 9] =
     Some (Err EOF, [])"
proof -
  have wf: "wf_records 0 [(9, [])]" by (simp add: wf_records_def)
  have bytes: "header_bytes 0 0 0 @ records_bytes [(9, [])] =
     [0, 0, 0, 0, 0, 0, 0, 0, 0, 0, 0, 0, 0, 0, 0, 9]"
    by (simp add: header_bytes_def records_bytes_def record_bytes_def PutUint32_def)
  have "ReadSignature bytes_Reader_Read (header_bytes 0 0 0 @ records_bytes [(9, [])]) =
          Some (Err EOF, [])"
    unfolding bytes_Reader_Read_def
    by (rule ReadSignature_empty_strong_EOF [OF wf]) simp
  then show ?thesis
    by (simp only: bytes)
qed

text \<open>
  C5. Let the blocks \<open>i < j\<close> of an input read from memory have the same weak checksum \<open>w\<close>, block
  \<open>j\<close> being the last block with that checksum. After the build the map gives \<open>j\<close>
  for \<open>w\<close>, and the strong checksum of block \<open>i\<close> is still at index \<open>i\<close>; the same
  holds for the signature decoded from the bytes that the build wrote (decoding returns
  it when the strong length is not 0 or the reader answers an empty \<^verbatim>\<open>Read\<close> at the
  end of the data with no error).
\<close>

theorem last_write_wins:
  assumes "accepted e sl st" "native_lengths e"
    and "i < j" "j < length (chunks (unat bl) xs)"
    and "WeakChecksum e (chunks (unat bl) xs ! i) = w"
    and "WeakChecksum e (chunks (unat bl) xs ! j) = w"
    and "\<forall>k. j < k \<and> k < length (chunks (unat bl) xs) \<longrightarrow> WeakChecksum e (chunks (unat bl) xs ! k) \<noteq> w"
  shows "\<exists>sg out.
           Signature e (stream_Read z') bytes_Buffer_Write xs [] bl sl st = Some (Ok sg, [], out) \<and>
           weak2block sg w = Some j \<and>
           i < length (strongSigs sg) \<and>
           strongSigs sg ! i = strong_of e st sl (chunks (unat bl) xs ! i) \<and>
           (\<not> z \<or> sl \<noteq> 0 \<longrightarrow>
              (\<exists>sg'. ReadSignature (stream_Read z) out = Some (Ok sg', []) \<and>
                     weak2block sg' w = Some j \<and>
                     i < length (strongSigs sg') \<and>
                     strongSigs sg' ! i = strong_of e st sl (chunks (unat bl) xs ! i)))"
proof -
  let ?blocks = "chunks (unat bl) xs"
  let ?sg = "signature_of e bl sl st ?blocks"
  let ?out = "header_bytes st bl sl @ records_bytes (map (block_record e st sl) ?blocks)"
  have bl: "0 < unat bl"
  proof (rule ccontr)
    assume "\<not> 0 < unat bl"
    then have "chunks (unat bl) xs = []" by (simp add: chunks.simps)
    then show False using assms(4) by simp
  qed
  have run: "Signature e (stream_Read z') bytes_Buffer_Write xs [] bl sl st = Some (Ok ?sg, [], ?out)"
    using Signature_stream [OF bl assms(1), of z' xs "[]"] by simp
  let ?ws = "map (WeakChecksum e) ?blocks"
  have "index_from Map.empty 0 ?ws w = Some (0 + j)"
  proof (rule index_from_last)
    show "j < length ?ws" using assms(4) by simp
    show "?ws ! j = w" using assms(4,6) by simp
    show "\<forall>k. j < k \<and> k < length ?ws \<longrightarrow> ?ws ! k \<noteq> w" using assms(7) by simp
  qed
  then have c1: "weak2block ?sg w = Some j"
    by (simp add: signature_of_def)
  have c2: "i < length (strongSigs ?sg)"
    using assms(3,4) by (simp add: signature_of_def)
  have c3: "strongSigs ?sg ! i = strong_of e st sl (?blocks ! i)"
    using assms(3,4) by (simp add: signature_of_def)
  have c4: "\<not> z \<or> sl \<noteq> 0 \<longrightarrow> ReadSignature (stream_Read z) ?out = Some (Ok ?sg, [])"
    using ReadSignature_of_build [OF assms(1,2), of z xs bl "unat bl"] by blast
  show ?thesis
    using run c1 c2 c3 c4 by blast
qed

theorem last_write_wins_witness:
  "accepted env0 16 0x72730136 \<and> native_lengths env0 \<and>
   (0 :: nat) < 1 \<and> 1 < length (chunks (unat (2 :: uint32)) [1, 2, 2, 1, 9 :: byte]) \<and>
   WeakChecksum env0 (chunks (unat (2 :: uint32)) [1, 2, 2, 1, 9] ! 0) = 3 \<and>
   WeakChecksum env0 (chunks (unat (2 :: uint32)) [1, 2, 2, 1, 9] ! 1) = 3 \<and>
   length (chunks (unat (2 :: uint32)) [1, 2, 2, 1, 9 :: byte]) = 3 \<and>
   WeakChecksum env0 (chunks (unat (2 :: uint32)) [1, 2, 2, 1, 9] ! 2) \<noteq> 3 \<and>
   (\<exists>sg out.
      Signature env0 bytes_Reader_Read bytes_Buffer_Write [1, 2, 2, 1, 9] [] 2 16 0x72730136 =
        Some (Ok sg, [], out) \<and>
      weak2block sg 3 = Some 1 \<and> 0 < length (strongSigs sg) \<and>
      (\<exists>sg'. ReadSignature bytes_Reader_Read out = Some (Ok sg', []) \<and>
             weak2block sg' 3 = Some 1 \<and> 0 < length (strongSigs sg')))"
proof -
  have ch: "chunks 2 [1, 2, 2, 1, 9 :: byte] = [[1, 2], [2, 1], [9]]"
    by (simp add: chunks.simps)
  have h2: "accepted env0 16 0x72730136" by (rule accepted_env0_MD4)
  have h3: "native_lengths env0" by (rule native_lengths_env0)
  have h4: "(0 :: nat) < 1" by simp
  have h5: "1 < length (chunks (unat (2 :: uint32)) [1, 2, 2, 1, 9 :: byte])"
    by (simp add: ch)
  have h6: "WeakChecksum env0 (chunks (unat (2 :: uint32)) [1, 2, 2, 1, 9] ! 0) = 3"
    by (simp add: ch env0_def)
  have h7: "WeakChecksum env0 (chunks (unat (2 :: uint32)) [1, 2, 2, 1, 9] ! 1) = 3"
    by (simp add: ch env0_def)
  have h8: "\<forall>k. 1 < k \<and> k < length (chunks (unat (2 :: uint32)) [1, 2, 2, 1, 9 :: byte]) \<longrightarrow>
              WeakChecksum env0 (chunks (unat (2 :: uint32)) [1, 2, 2, 1, 9] ! k) \<noteq> 3"
  proof (intro allI impI)
    fix k :: nat
    assume "1 < k \<and> k < length (chunks (unat (2 :: uint32)) [1, 2, 2, 1, 9 :: byte])"
    then have "k = 2" by (simp add: ch)
    then show "WeakChecksum env0 (chunks (unat (2 :: uint32)) [1, 2, 2, 1, 9] ! k) \<noteq> 3"
      by (simp add: ch env0_def)
  qed
  have l3: "length (chunks (unat (2 :: uint32)) [1, 2, 2, 1, 9 :: byte]) = 3"
    by (simp add: ch)
  have w2: "WeakChecksum env0 (chunks (unat (2 :: uint32)) [1, 2, 2, 1, 9] ! 2) \<noteq> 3"
    by (simp add: ch env0_def)
  have nz: "\<not> True \<or> (16 :: uint32) \<noteq> 0" by simp
  show ?thesis
    unfolding bytes_Reader_Read_def
    using h2 h3 h4 h5 h6 h7 l3 w2 nz
      last_write_wins [OF h2 h3 h4 h5 h6 h7 h8, of True True]
    by blast
qed

text \<open>
  C2. The input \<^verbatim>\<open>"a"\<close>, block length 1, MD4 with 16 bytes, and a sink with room for
  16 bytes: the header and the weak checksum fill it, the write of the strong checksum
  returns an error, and \<^verbatim>\<open>Signature\<close> returns the signature with no error.
\<close>

theorem strong_write_error_is_dropped:
  "limited_Write ([0x72, 0x73, 0x01, 0x36, 0, 0, 0, 1, 0, 0, 0, 16, 0, 0, 0, 0x61], 0)
     (strong_of env0 0x72730136 16 [0x61]) =
     (Some (IOError 0), ([0x72, 0x73, 0x01, 0x36, 0, 0, 0, 1, 0, 0, 0, 16, 0, 0, 0, 0x61], 0)) \<and>
   Signature env0 bytes_Reader_Read limited_Write [0x61] ([], 16) 1 16 0x72730136 =
     Some (Ok \<lparr>sigType = 0x72730136, blockLen = 1, strongLen = 16,
               strongSigs = [strong_of env0 0x72730136 16 [0x61]],
               weak2block = [0x61 \<mapsto> 0]\<rparr>, [],
           ([0x72, 0x73, 0x01, 0x36, 0, 0, 0, 1, 0, 0, 0, 16, 0, 0, 0, 0x61], 0))"
proof -
  have s: "strong_of env0 0x72730136 16 [0x61] = replicate 16 0xD4"
    by (simp add: strong_of_def full_digest_def env0_def)
  have w: "WeakChecksum env0 [0x61] = 0x61" by (simp add: env0_def)
  have c: "CalcStrongSum env0 [0x61] 0x72730136 16 = Ok (strong_of env0 0x72730136 16 [0x61])"
    by (rule CalcStrongSum_accepted [OF accepted_env0_MD4])
  have m: "BLAKE2_SIG_MAGIC env0 = 0x72730137" "MD4_SIG_MAGIC env0 = 0x72730136"
    by (simp_all add: env0_def)
  have p: "PutUint32 0x72730136 = [0x72, 0x73, 0x01, 0x36]" "PutUint32 1 = [0, 0, 0, 1]"
    "PutUint32 16 = [0, 0, 0, 16]" "PutUint32 0x61 = [0, 0, 0, 0x61]"
    by (simp_all add: PutUint32_def)
  have last: "Signature_loop env0 (stream_Read True) limited_Write 1 16 0x72730136 []
                ([0x72, 0x73, 0x01, 0x36, 0, 0, 0, 1, 0, 0, 0, 16, 0, 0, 0, 0x61], 0)
                \<lparr>sigType = 0x72730136, blockLen = 1, strongLen = 16,
                 strongSigs = [replicate 16 0xD4],
                 weak2block = [0x61 \<mapsto> 0]\<rparr> =
              Some (Ok \<lparr>sigType = 0x72730136, blockLen = 1, strongLen = 16,
                        strongSigs = [replicate 16 0xD4],
                        weak2block = [0x61 \<mapsto> 0]\<rparr>, [],
                    ([0x72, 0x73, 0x01, 0x36, 0, 0, 0, 1, 0, 0, 0, 16, 0, 0, 0, 0x61], 0))"
    by (subst Signature_loop.simps) (simp add: stream_Read_def)
  have first: "Signature_loop env0 (stream_Read True) limited_Write 1 16 0x72730136 [0x61]
                ([0x72, 0x73, 0x01, 0x36, 0, 0, 0, 1, 0, 0, 0, 16], 4)
                \<lparr>sigType = 0x72730136, blockLen = 1, strongLen = 16,
                 strongSigs = [], weak2block = Map.empty\<rparr> =
              Some (Ok \<lparr>sigType = 0x72730136, blockLen = 1, strongLen = 16,
                        strongSigs = [replicate 16 0xD4],
                        weak2block = [0x61 \<mapsto> 0]\<rparr>, [],
                    ([0x72, 0x73, 0x01, 0x36, 0, 0, 0, 1, 0, 0, 0, 16, 0, 0, 0, 0x61], 0))"
    apply (subst Signature_loop.simps)
    apply (simp add: stream_Read_def binary_Write_def limited_Write_def
        p w c s Let_def)
    apply (simp only: last)
    done
  have run: "Signature env0 bytes_Reader_Read limited_Write [0x61] ([], 16) 1 16 0x72730136 =
     Some (Ok \<lparr>sigType = 0x72730136, blockLen = 1, strongLen = 16,
               strongSigs = [strong_of env0 0x72730136 16 [0x61]],
               weak2block = [0x61 \<mapsto> 0]\<rparr>, [],
           ([0x72, 0x73, 0x01, 0x36, 0, 0, 0, 1, 0, 0, 0, 16, 0, 0, 0, 0x61], 0))"
    unfolding Signature_def bytes_Reader_Read_def
    by (simp add: m BLAKE2_SUM_LENGTH_def MD4_SUM_LENGTH_def binary_Write_def limited_Write_def
        p first s)
  have wr: "limited_Write ([0x72, 0x73, 0x01, 0x36, 0, 0, 0, 1, 0, 0, 0, 16, 0, 0, 0, 0x61], 0)
     (strong_of env0 0x72730136 16 [0x61]) =
     (Some (IOError 0), ([0x72, 0x73, 0x01, 0x36, 0, 0, 0, 1, 0, 0, 0, 16, 0, 0, 0, 0x61], 0))"
    by (simp add: limited_Write_def s)
  show ?thesis
    using wr run by blast
qed

end
